theory Spec2Isabelle
  imports Main "HOL-Library.Word" "HOL-Library.Monad_Syntax"
begin

unbundle bit_operations_syntax

section \<open>Type descriptors\<close>

text \<open>
  The object engine of the driver (object.c) works on type descriptors
  (\<open>OCI_TypeInfo\<close>) that are shared by pointer: a descriptor points to its parent
  type and each object-typed column points to the descriptor of its nested type.
  Descriptors are kept in a store; a pointer is an address of the store and \<open>NULL\<close> is
  \<open>None\<close>. Integer widths follow the LP64 data model: \<open>size_t\<close> is a 64-bit word,
  \<open>int\<close> a 32-bit word, \<open>ub2\<close> a 16-bit word.

  A result of type \<open>'a option\<close> is \<open>None\<close> when the C function has no defined
  result: the recursion does not end (the fuel of the model runs out), or the C program
  reads an array out of range or follows a null or dangling descriptor pointer.
\<close>

datatype cdt =
    OCI_CDT_NUMERIC | OCI_CDT_DATETIME | OCI_CDT_TEXT | OCI_CDT_LONG | OCI_CDT_CURSOR
  | OCI_CDT_LOB | OCI_CDT_FILE | OCI_CDT_TIMESTAMP | OCI_CDT_INTERVAL | OCI_CDT_RAW
  | OCI_CDT_OBJECT | OCI_CDT_COLLECTION | OCI_CDT_REF | OCI_CDT_BOOLEAN

datatype tif = OCI_TIF_TABLE | OCI_TIF_VIEW | OCI_TIF_TYPE

record OCI_Column =
  col_name :: string
  col_datatype :: cdt
  col_subtype :: "32 word"
  col_typinf :: "nat option"

record OCI_TypeInfo =
  cols :: "OCI_Column list"
  parent_type :: "nat option"
  tif_type :: tif
  is_final :: bool
  tdo :: nat
  struct_size :: "64 word"
  align :: "64 word"
  offsets :: "32 word list"

type_synonym type_store = "OCI_TypeInfo list"

text \<open>The column array of a descriptor holds exactly \<open>nb_cols\<close> descriptors.\<close>

definition nb_cols :: "OCI_TypeInfo \<Rightarrow> nat" where
  "nb_cols ti = length (cols ti)"

definition deref :: "type_store \<Rightarrow> nat \<Rightarrow> OCI_TypeInfo option" where
  "deref S p = (if p < length S then Some (S ! p) else None)"

section \<open>ObjectGetIndOffset\<close>

text \<open>
  \<^verbatim>\<open>for (i = 0; i < (int) index; i++)\<close> with \<open>ub2 i\<close> and \<open>j = 1\<close>: one pass of
  the loop body per column index of the list, \<open>j\<close> wrapping at 16 bits. \<open>call\<close> is
  the recursive call on the nested type of an object column.
\<close>

fun IndOffset_loop ::
  "(nat option \<Rightarrow> int \<Rightarrow> 16 word option) \<Rightarrow> type_store \<Rightarrow> OCI_Column list \<Rightarrow>
   nat list \<Rightarrow> 16 word \<Rightarrow> 16 word option" where
  "IndOffset_loop call S cs [] j = Some j"
| "IndOffset_loop call S cs (i # is) j =
     (if i < length cs then
        (if col_datatype (cs ! i) = OCI_CDT_OBJECT then
           (case col_typinf (cs ! i) of
              None \<Rightarrow> None
            | Some q \<Rightarrow>
                (case deref S q of
                   None \<Rightarrow> None
                 | Some nested \<Rightarrow>
                     (case call (Some q) (int (nb_cols nested)) of
                        None \<Rightarrow> None
                      | Some k \<Rightarrow> IndOffset_loop call S cs is (j + k))))
         else IndOffset_loop call S cs is (j + 1))
      else None)"

text \<open>
  The loop counter is a \<open>ub2\<close> compared with the \<open>int\<close> index: for an index above
  65535 the counter wraps before it reaches the index and the loop never ends.
\<close>

primrec ObjectGetIndOffset ::
  "nat \<Rightarrow> type_store \<Rightarrow> nat option \<Rightarrow> int \<Rightarrow> 16 word option" where
  "ObjectGetIndOffset 0 S typinf index = None"
| "ObjectGetIndOffset (Suc fuel) S typinf index =
     (case typinf of
        None \<Rightarrow> Some 0
      | Some p \<Rightarrow>
          (case deref S p of
             None \<Rightarrow> None
           | Some ti \<Rightarrow>
               if 65535 < index then None
               else IndOffset_loop (ObjectGetIndOffset fuel S) S (cols ti)
                      [0..<nat index] 1))"

text \<open>
  The flattened count of the null slots of a type, in the words of the specification:
  a plain attribute has one slot, an object attribute has its own slot and the slots
  of its nested type.
\<close>

fun flattened_cols :: "(nat \<Rightarrow> nat option) \<Rightarrow> OCI_Column list \<Rightarrow> nat option" where
  "flattened_cols count [] = Some 0"
| "flattened_cols count (c # cs) =
     (case (if col_datatype c = OCI_CDT_OBJECT
            then (case col_typinf c of None \<Rightarrow> None | Some q \<Rightarrow> map_option Suc (count q))
            else Some 1) of
        None \<Rightarrow> None
      | Some k \<Rightarrow> map_option (\<lambda>r. k + r) (flattened_cols count cs))"

primrec flattened_count :: "nat \<Rightarrow> type_store \<Rightarrow> nat \<Rightarrow> nat option" where
  "flattened_count 0 S p = None"
| "flattened_count (Suc fuel) S p =
     (case deref S p of
        None \<Rightarrow> None
      | Some ti \<Rightarrow> flattened_cols (flattened_count fuel S) (cols ti))"

text \<open>\<open>nb_cols\<close> is a \<open>ub2\<close>: no column array has more than 65535 entries.\<close>

definition ub2_cols :: "type_store \<Rightarrow> bool" where
  "ub2_cols S = (\<forall>ti \<in> set S. nb_cols ti \<le> 65535)"

section \<open>Example catalog\<close>

text \<open>
  \<open>OUTER(A object(INNER), B number)\<close> with \<open>INNER(X number, Y varchar)\<close>; fresh
  descriptors have no cached layout.
\<close>

definition mk_col :: "string \<Rightarrow> cdt \<Rightarrow> 32 word \<Rightarrow> nat option \<Rightarrow> OCI_Column" where
  "mk_col n d s t = \<lparr>col_name = n, col_datatype = d, col_subtype = s, col_typinf = t\<rparr>"

definition mk_type :: "OCI_Column list \<Rightarrow> nat option \<Rightarrow> bool \<Rightarrow> nat \<Rightarrow> OCI_TypeInfo" where
  "mk_type cs par fin h = \<lparr>cols = cs, parent_type = par, tif_type = OCI_TIF_TYPE,
     is_final = fin, tdo = h, struct_size = 0, align = 0,
     offsets = replicate (length cs) 0\<rparr>"

definition ex_INNER :: OCI_TypeInfo where
  "ex_INNER = mk_type [mk_col ''X'' OCI_CDT_NUMERIC 0 None,
                       mk_col ''Y'' OCI_CDT_TEXT 0 None] None True 11"

definition ex_OUTER :: OCI_TypeInfo where
  "ex_OUTER = mk_type [mk_col ''A'' OCI_CDT_OBJECT 0 (Some 0),
                       mk_col ''B'' OCI_CDT_NUMERIC 0 None] None True 12"

definition ex_store :: type_store where
  "ex_store = [ex_INNER, ex_OUTER]"

section \<open>Struct layout\<close>

text \<open>
  The sizes of the native types, the numeric subtype flags and the macro \<open>ROUNDUP\<close>
  are declared in headers that are not among the sources; they are parameters of the
  layout functions.
\<close>

record platform =
  sizeof_short :: "64 word"
  sizeof_int :: "64 word"
  sizeof_double :: "64 word"
  sizeof_OCINumber :: "64 word"
  sizeof_ub1 :: "64 word"
  sizeof_OCIDate :: "64 word"
  sizeof_sb2 :: "64 word"
  sizeof_boolean :: "64 word"
  sizeof_ptr :: "64 word"
  OCI_NUM_SHORT :: "32 word"
  OCI_NUM_INT :: "32 word"
  OCI_NUM_FLOAT :: "32 word"
  OCI_NUM_DOUBLE :: "32 word"
  ROUNDUP :: "64 word \<Rightarrow> 64 word \<Rightarrow> 64 word"

text \<open>
  \<open>ObjectGetStructSize\<close> and \<open>ObjectGetAttrInfo\<close> call each other. The recursive
  call is a parameter of the functions below; it takes the store, the descriptor pointer
  and the current values of the two out parameters, and returns the new store and the
  new values.
\<close>

type_synonym struct_call =
  "type_store \<Rightarrow> nat option \<Rightarrow> 64 word \<times> 64 word \<Rightarrow> (type_store \<times> 64 word \<times> 64 word) option"

text \<open>
  The \<open>switch\<close> of \<open>ObjectGetAttrInfo\<close> on the datatype of a column, for the
  cases that do not recurse: the size and the alignment of the member.
\<close>

definition attr_size_align :: "platform \<Rightarrow> OCI_Column \<Rightarrow> 64 word \<times> 64 word" where
  "attr_size_align pf c =
     (if col_datatype c = OCI_CDT_NUMERIC then
        (if col_subtype c AND OCI_NUM_SHORT pf \<noteq> 0 then (sizeof_short pf, sizeof_short pf)
         else if col_subtype c AND OCI_NUM_INT pf \<noteq> 0 then (sizeof_int pf, sizeof_int pf)
         else if col_subtype c AND OCI_NUM_FLOAT pf \<noteq> 0 then (sizeof_double pf, sizeof_double pf)
         else if col_subtype c AND OCI_NUM_DOUBLE pf \<noteq> 0 then (sizeof_double pf, sizeof_double pf)
         else (sizeof_OCINumber pf, sizeof_ub1 pf))
      else if col_datatype c = OCI_CDT_DATETIME then (sizeof_OCIDate pf, sizeof_sb2 pf)
      else if col_datatype c = OCI_CDT_BOOLEAN then (sizeof_boolean pf, sizeof_boolean pf)
      else (sizeof_ptr pf, sizeof_ptr pf))"

text \<open>
  \<open>ObjectGetAttrInfo(typinf, index, p_size, p_align)\<close>. The callers pass their own
  non-null descriptor and the addresses of locals, so the null checks never fire; the
  boolean result is not used by any caller. Past the last column only \<open>*p_size\<close> is
  written. For an object column the size and the alignment are those of the nested
  type; at the end the alignment of the descriptor is raised to that of the member.
\<close>

definition ObjectGetAttrInfo ::
  "struct_call \<Rightarrow> platform \<Rightarrow> type_store \<Rightarrow> nat \<Rightarrow> nat \<Rightarrow> 64 word \<times> 64 word \<Rightarrow>
   (type_store \<times> 64 word \<times> 64 word) option" where
  "ObjectGetAttrInfo call pf S p index out =
     (case deref S p of
        None \<Rightarrow> None
      | Some ti \<Rightarrow>
          if nb_cols ti \<le> index then Some (S, 0, snd out)
          else
            (case
               (if col_datatype (cols ti ! index) = OCI_CDT_OBJECT
                then call S (col_typinf (cols ti ! index)) out
                else Some (S, attr_size_align pf (cols ti ! index))) of
               None \<Rightarrow> None
             | Some (S1, s, al) \<Rightarrow>
                 (case deref S1 p of
                    None \<Rightarrow> None
                  | Some t1 \<Rightarrow>
                      Some (if align t1 < al then S1[p := t1\<lparr>align := al\<rparr>] else S1,
                            s, al))))"

text \<open>\<open>typinf->offsets[i] = v\<close>; the offset table has one \<open>int\<close> per column.\<close>

definition set_offset :: "type_store \<Rightarrow> nat \<Rightarrow> nat \<Rightarrow> 32 word \<Rightarrow> type_store option" where
  "set_offset S p i v =
     (case deref S p of
        None \<Rightarrow> None
      | Some ti \<Rightarrow>
          if i < length (offsets ti)
          then Some (S[p := ti\<lparr>offsets := (offsets ti)[i := v]\<rparr>])
          else None)"

text \<open>The loop that copies the parent's offsets into the prefix of the table.\<close>

fun copy_offsets :: "type_store \<Rightarrow> nat \<Rightarrow> nat \<Rightarrow> nat list \<Rightarrow> type_store option" where
  "copy_offsets S p pp [] = Some S"
| "copy_offsets S p pp (i # is) =
     (case deref S pp of
        None \<Rightarrow> None
      | Some par \<Rightarrow>
          if i < length (offsets par) then
            (case set_offset S p i (offsets par ! i) of
               None \<Rightarrow> None
             | Some S' \<Rightarrow> copy_offsets S' p pp is)
          else None)"

text \<open>
  The main loop of \<open>ObjectGetStructSize\<close>; the state is the store and the locals
  \<open>size\<close>, \<open>size1\<close>, \<open>size2\<close> and \<open>align\<close>.
\<close>

fun layout_loop ::
  "struct_call \<Rightarrow> platform \<Rightarrow> nat \<Rightarrow> nat list \<Rightarrow>
   type_store \<times> 64 word \<times> 64 word \<times> 64 word \<times> 64 word \<Rightarrow>
   (type_store \<times> 64 word \<times> 64 word \<times> 64 word \<times> 64 word) option" where
  "layout_loop call pf p [] st = Some st"
| "layout_loop call pf p (i # is) (S, sz, sz1, sz2, algn) =
     (case
        (if 0 < i then
           (case set_offset S p i (ucast sz) of
              None \<Rightarrow> None
            | Some Sa \<Rightarrow> Some (Sa, sz2, algn))
         else
           (case ObjectGetAttrInfo call pf S p i (sz1, algn) of
              None \<Rightarrow> None
            | Some (S0, s1, a0) \<Rightarrow>
                (case set_offset S0 p i 0 of
                   None \<Rightarrow> None
                 | Some Sa \<Rightarrow> Some (Sa, s1, a0)))) of
        None \<Rightarrow> None
      | Some (Sa, sz1', align_a) \<Rightarrow>
          (case ObjectGetAttrInfo call pf Sa p (i + 1) (sz2, align_a) of
             None \<Rightarrow> None
           | Some (Sb, sz2', align_b) \<Rightarrow>
               layout_loop call pf p is
                 (Sb, ROUNDUP pf (sz + sz1') align_b, sz1', sz2', align_b)))"

text \<open>
  The part before the loop: the parent's layout, the copy of its offsets and the first
  member of the derived type. The result is the store, \<open>size\<close>, \<open>size2\<close>,
  \<open>align\<close> and the index of the first own column.
\<close>

definition layout_parent ::
  "struct_call \<Rightarrow> platform \<Rightarrow> type_store \<Rightarrow> nat \<Rightarrow> OCI_TypeInfo \<Rightarrow>
   (type_store \<times> 64 word \<times> 64 word \<times> 64 word \<times> nat) option" where
  "layout_parent call pf S p ti =
     (case parent_type ti of
        None \<Rightarrow> Some (S, 0, 0, 0, 0)
      | Some pp \<Rightarrow>
          (case call S (Some pp) (0, 0) of
             None \<Rightarrow> None
           | Some (S1, sz, algn) \<Rightarrow>
               (case deref S1 pp of
                  None \<Rightarrow> None
                | Some par \<Rightarrow>
                    (case copy_offsets S1 p pp [0..<nb_cols par] of
                       None \<Rightarrow> None
                     | Some S2 \<Rightarrow>
                         if nb_cols par < nb_cols ti then
                           (case deref S2 p of
                              None \<Rightarrow> None
                            | Some t2 \<Rightarrow>
                                (case ObjectGetAttrInfo call pf
                                        (S2[p := t2\<lparr>align := algn\<rparr>]) p (nb_cols par) (0, 0) of
                                   None \<Rightarrow> None
                                 | Some (S3, sz2, next_align) \<Rightarrow>
                                     Some (S3, ROUNDUP pf sz next_align, sz2, algn,
                                           nb_cols par)))
                         else Some (S2, sz, 0, algn, nb_cols par)))))"

definition compute_layout ::
  "struct_call \<Rightarrow> platform \<Rightarrow> type_store \<Rightarrow> nat \<Rightarrow> type_store option" where
  "compute_layout call pf S p =
     (case deref S p of
        None \<Rightarrow> None
      | Some ti \<Rightarrow>
          (case layout_parent call pf S p ti of
             None \<Rightarrow> None
           | Some (S3, sz, sz2, algn, i0) \<Rightarrow>
               (case layout_loop call pf p [i0..<nb_cols ti] (S3, sz, 0, sz2, algn) of
                  None \<Rightarrow> None
                | Some (S4, sz', sz1', sz2', align') \<Rightarrow>
                    (case deref S4 p of
                       None \<Rightarrow> None
                     | Some t4 \<Rightarrow>
                         Some (S4[p := t4\<lparr>struct_size :=
                                 ROUNDUP pf (sz' + sz2') (align t4)\<rparr>])))))"

text \<open>
  \<open>ObjectGetStructSize(typinf, p_size, p_align)\<close>, with fuel for the recursion through
  parents and nested types. A null descriptor returns at once and leaves the out
  parameters as they are.
\<close>

primrec ObjectGetStructSize :: "nat \<Rightarrow> platform \<Rightarrow> struct_call" where
  "ObjectGetStructSize 0 pf S typinf out =
     (case typinf of None \<Rightarrow> Some (S, out) | Some p \<Rightarrow> None)"
| "ObjectGetStructSize (Suc fuel) pf S typinf out =
     (case typinf of
        None \<Rightarrow> Some (S, out)
      | Some p \<Rightarrow>
          (case deref S p of
             None \<Rightarrow> None
           | Some ti \<Rightarrow>
               (case (if struct_size ti = 0
                      then compute_layout (ObjectGetStructSize fuel pf) pf S p
                      else Some S) of
                  None \<Rightarrow> None
                | Some S' \<Rightarrow>
                    (case deref S' p of
                       None \<Rightarrow> None
                     | Some ti' \<Rightarrow> Some (S', struct_size ti', align ti')))))"

text \<open>
  A platform for the examples: the LP64 sizes and the usual power-of-two mask for
  \<open>ROUNDUP\<close>, \<open>(amount + (align - 1)) & ~(align - 1)\<close>.
\<close>

definition ROUNDUP_mask :: "64 word \<Rightarrow> 64 word \<Rightarrow> 64 word" where
  "ROUNDUP_mask amount algn = (amount + (algn - 1)) AND NOT (algn - 1)"

definition lp64 :: platform where
  "lp64 = \<lparr>sizeof_short = 2, sizeof_int = 4, sizeof_double = 8, sizeof_OCINumber = 22,
     sizeof_ub1 = 1, sizeof_OCIDate = 8, sizeof_sb2 = 2, sizeof_boolean = 4, sizeof_ptr = 8,
     OCI_NUM_SHORT = 4, OCI_NUM_INT = 8, OCI_NUM_FLOAT = 32, OCI_NUM_DOUBLE = 64,
     ROUNDUP = ROUNDUP_mask\<rparr>"

text \<open>
  \<open>BASE(ID int)\<close>, not final, with two subtypes: \<open>DERIVED\<close> adds no attribute,
  \<open>DERIVED2\<close> adds \<open>NAME varchar\<close> and \<open>F boolean\<close>.
\<close>

definition ex_BASE :: OCI_TypeInfo where
  "ex_BASE = mk_type [mk_col ''ID'' OCI_CDT_NUMERIC 8 None] None False 21"

definition ex_DERIVED :: OCI_TypeInfo where
  "ex_DERIVED = mk_type [mk_col ''ID'' OCI_CDT_NUMERIC 8 None] (Some 0) True 22"

definition ex_DERIVED2 :: OCI_TypeInfo where
  "ex_DERIVED2 = mk_type [mk_col ''ID'' OCI_CDT_NUMERIC 8 None,
     mk_col ''NAME'' OCI_CDT_TEXT 0 None, mk_col ''F'' OCI_CDT_BOOLEAN 0 None] (Some 0) True 23"

definition ex_hier :: type_store where
  "ex_hier = [ex_BASE, ex_DERIVED, ex_DERIVED2]"

text \<open>
  The same hierarchy once the layout of \<open>BASE\<close> is computed: it holds its size and
  its alignment, the two subtypes are still fresh.
\<close>

definition ex_hier_laid :: type_store where
  "ex_hier_laid = [ex_BASE\<lparr>struct_size := 4, align := 4\<rparr>, ex_DERIVED, ex_DERIVED2]"

section \<open>Object instances\<close>

text \<open>
  An object points to its type descriptor, to its native instance (\<open>handle\<close>, 0 is
  \<open>NULL\<close>) and to the indicator array \<open>tab_ind\<close>, in which its own indicators start
  at \<open>idx_ind\<close>. The world holds the type store, the native memory and the diagnostics
  raised so far, and logs the calls into the native runtime.
\<close>

datatype exception = ExceptionNullPointer | ExceptionAttributeNotFound string | ExceptionOCI

record OCI_Object =
  obj_typinf :: nat
  obj_handle :: "64 word"
  tab_ind :: "16 word list"
  idx_ind :: int
  objs :: "nat option list"

record world =
  types :: type_store
  memory :: "(64 word \<times> int) list"
  raised :: "exception list"
  native_calls :: "string list"

text \<open>The indicator values of the native interface (\<open>OCIInd\<close> is an \<open>sb2\<close>).\<close>

definition OCI_IND_NOTNULL :: "16 word" where "OCI_IND_NOTNULL = 0"

definition OCI_IND_NULL :: "16 word" where "OCI_IND_NULL = - 1"

definition OCI_IND_BADNULL :: "16 word" where "OCI_IND_BADNULL = - 2"

definition OCI_IND_NOTNULLABLE :: "16 word" where "OCI_IND_NOTNULLABLE = - 3"

definition mem_read :: "(64 word \<times> int) list \<Rightarrow> 64 word \<Rightarrow> int" where
  "mem_read m a = (case map_of m a of None \<Rightarrow> 0 | Some v \<Rightarrow> v)"

definition get_ind :: "OCI_Object \<Rightarrow> int \<Rightarrow> 16 word option" where
  "get_ind ob k =
     (if 0 \<le> k \<and> nat k < length (tab_ind ob) then Some (tab_ind ob ! nat k) else None)"

definition set_ind :: "OCI_Object \<Rightarrow> int \<Rightarrow> 16 word \<Rightarrow> OCI_Object option" where
  "set_ind ob k v =
     (if 0 \<le> k \<and> nat k < length (tab_ind ob)
      then Some (ob\<lparr>tab_ind := (tab_ind ob)[nat k := v]\<rparr>) else None)"

definition raise :: "exception \<Rightarrow> world \<Rightarrow> world" where
  "raise e w = w\<lparr>raised := raised w @ [e]\<rparr>"

text \<open>
  The call macros of macro.h are not among the sources. \<open>OCI_CALL_ENTER\<close> starts a call
  with the status \<open>TRUE\<close> and the given return value, \<open>OCI_CALL_CHECK_PTR\<close> raises a
  null pointer diagnostic and leaves with that return value, \<open>OCI_EXEC\<close> runs a native
  call when the status is still \<open>TRUE\<close>, sets the status to its success and raises the
  native diagnostic on failure. A native primitive run by \<open>OCI_EXEC\<close> inside a setter
  can be handed the address of the attribute and the address of its indicator
  (\<open>ObjectSetObject\<close> passes \<open>ind\<close> to \<open>OCIObjectCopy\<close>), so it acts on the native memory
  and on the indicator array of the object. The library helpers
  \<open>StringToStringPtr\<close> and \<open>TranslateNumericValue\<close> are handed the address of the
  attribute only and act on the native memory.
\<close>

type_synonym native_memory = "(64 word \<times> int) list"

type_synonym native_state = "native_memory \<times> 16 word list"

definition OCI_EXEC ::
  "bool \<Rightarrow> (native_state \<Rightarrow> native_state \<times> bool) \<Rightarrow> world \<Rightarrow> OCI_Object \<Rightarrow>
   (world \<times> OCI_Object) \<times> bool" where
  "OCI_EXEC status fct w ob =
     (if status then
        (let ((m, ti), ok) = fct (memory w, tab_ind ob)
         in ((if ok then w\<lparr>memory := m\<rparr> else raise ExceptionOCI (w\<lparr>memory := m\<rparr>),
              ob\<lparr>tab_ind := ti\<rparr>), ok))
      else ((w, ob), False))"

definition helper_call ::
  "(native_memory \<Rightarrow> native_memory \<times> bool) \<Rightarrow> world \<Rightarrow> world \<times> bool" where
  "helper_call fct w = (let (m, ok) = fct (memory w) in (w\<lparr>memory := m\<rparr>, ok))"

text \<open>\<open>ostrcasecmp(a, b) == 0\<close>: equality of names up to the case of ASCII letters.\<close>

definition otoupper :: "char \<Rightarrow> char" where
  "otoupper c =
     (if 97 \<le> (of_char c :: nat) \<and> (of_char c :: nat) \<le> 122
      then char_of ((of_char c :: nat) - 32) else c)"

definition ostrcasecmp_eq :: "string \<Rightarrow> string \<Rightarrow> bool" where
  "ostrcasecmp_eq a b = (map otoupper a = map otoupper b)"

text \<open>
  \<open>ObjectGetAttrIndex(obj, attr, type, check)\<close>; the type \<open>-1\<close> (any) is \<open>None\<close>.
\<close>

fun attr_scan :: "OCI_Column list \<Rightarrow> string \<Rightarrow> cdt option \<Rightarrow> nat \<Rightarrow> int" where
  "attr_scan [] attr type i = - 1"
| "attr_scan (col # cs) attr type i =
     (if (type = None \<or> Some (col_datatype col) = type) \<and> ostrcasecmp_eq (col_name col) attr
      then int i else attr_scan cs attr type (Suc i))"

definition ObjectGetAttrIndex ::
  "world \<Rightarrow> OCI_Object option \<Rightarrow> string option \<Rightarrow> cdt option \<Rightarrow> bool \<Rightarrow> (world \<times> int) option" where
  "ObjectGetAttrIndex w obj attr type check =
     (case obj of
        None \<Rightarrow> Some (w, - 1)
      | Some ob \<Rightarrow>
          (case attr of
             None \<Rightarrow> Some (w, - 1)
           | Some a \<Rightarrow>
               (case deref (types w) (obj_typinf ob) of
                  None \<Rightarrow> None
                | Some ti \<Rightarrow>
                    (let res = attr_scan (cols ti) a type 0
                     in Some (if check \<and> res = - 1
                              then raise (ExceptionAttributeNotFound a) w else w, res)))))"

text \<open>
  \<open>ObjectGetAttr(obj, index, &ind)\<close> computes the layout when it is not cached, and
  returns the address of the attribute and the position of its indicator in
  \<open>tab_ind\<close>.
\<close>

definition ObjectGetAttr ::
  "nat \<Rightarrow> platform \<Rightarrow> world \<Rightarrow> OCI_Object \<Rightarrow> nat \<Rightarrow> (world \<times> 64 word \<times> int) option" where
  "ObjectGetAttr fuel pf w ob index =
     (case deref (types w) (obj_typinf ob) of
        None \<Rightarrow> None
      | Some ti \<Rightarrow>
          (case (if struct_size ti = 0
                 then map_option fst
                        (ObjectGetStructSize fuel pf (types w) (Some (obj_typinf ob)) (0, 0))
                 else Some (types w)) of
             None \<Rightarrow> None
           | Some S' \<Rightarrow>
               (case deref S' (obj_typinf ob) of
                  None \<Rightarrow> None
                | Some ti' \<Rightarrow>
                    if index < length (offsets ti') then
                      (case ObjectGetIndOffset fuel S' (Some (obj_typinf ob)) (int index) of
                         None \<Rightarrow> None
                       | Some off \<Rightarrow>
                           Some (w\<lparr>types := S'\<rparr>,
                                 obj_handle ob + scast (offsets ti' ! index),
                                 idx_ind ob + uint off))
                    else None)))"

definition ObjectSetNull ::
  "nat \<Rightarrow> world \<Rightarrow> OCI_Object option \<Rightarrow> string option \<Rightarrow>
   (world \<times> OCI_Object option \<times> bool) option" where
  "ObjectSetNull fuel w obj attr =
     (case obj of
        None \<Rightarrow> Some (raise ExceptionNullPointer w, None, False)
      | Some ob \<Rightarrow>
          (case attr of
             None \<Rightarrow> Some (raise ExceptionNullPointer w, obj, False)
           | Some a \<Rightarrow>
               (case ObjectGetAttrIndex w obj attr None True of
                  None \<Rightarrow> None
                | Some (w1, index) \<Rightarrow>
                    if 0 \<le> index then
                      (case ObjectGetIndOffset fuel (types w1) (Some (obj_typinf ob)) index of
                         None \<Rightarrow> None
                       | Some off \<Rightarrow>
                           (case set_ind ob (idx_ind ob + uint off) OCI_IND_NULL of
                              None \<Rightarrow> None
                            | Some ob' \<Rightarrow> Some (w1, Some ob', True)))
                    else Some (w1, obj, True))))"

definition ObjectIsNull ::
  "nat \<Rightarrow> world \<Rightarrow> OCI_Object option \<Rightarrow> string option \<Rightarrow> (world \<times> bool) option" where
  "ObjectIsNull fuel w obj attr =
     (case obj of
        None \<Rightarrow> Some (raise ExceptionNullPointer w, False)
      | Some ob \<Rightarrow>
          (case attr of
             None \<Rightarrow> Some (raise ExceptionNullPointer w, False)
           | Some a \<Rightarrow>
               (case ObjectGetAttrIndex w obj attr None True of
                  None \<Rightarrow> None
                | Some (w1, index) \<Rightarrow>
                    if 0 \<le> index then
                      (case ObjectGetIndOffset fuel (types w1) (Some (obj_typinf ob)) index of
                         None \<Rightarrow> None
                       | Some off \<Rightarrow>
                           (case get_ind ob (idx_ind ob + uint off) of
                              None \<Rightarrow> None
                            | Some iv \<Rightarrow> Some (w1, OCI_IND_NOTNULL \<noteq> iv)))
                    else Some (w1, False))))"

text \<open>
  The macro \<open>OCI_OBJECT_SET_VALUE(datatype, type, func)\<close>; \<open>func\<close> is the native
  assignment, an expression over the locals of the macro: it receives the value, the
  object, the index, the address \<open>data\<close> of the attribute and the position \<open>ind\<close> of
  its indicator. An absent value is \<open>None\<close>, and the assignment takes a value that is
  present. The macro itself writes the indicator only after \<open>OCI_EXEC\<close>, when the
  status is \<open>TRUE\<close>.
\<close>

definition OCI_OBJECT_SET_VALUE ::
  "nat \<Rightarrow> platform \<Rightarrow> cdt \<Rightarrow>
   ('v \<Rightarrow> OCI_Object \<Rightarrow> nat \<Rightarrow> 64 word \<Rightarrow> int \<Rightarrow> native_state \<Rightarrow> native_state \<times> bool) \<Rightarrow>
   world \<Rightarrow> OCI_Object option \<Rightarrow> string option \<Rightarrow> 'v option \<Rightarrow>
   (world \<times> OCI_Object option \<times> bool) option" where
  "OCI_OBJECT_SET_VALUE fuel pf dt func w obj attr val =
     (case obj of
        None \<Rightarrow> Some (raise ExceptionNullPointer w, None, False)
      | Some ob \<Rightarrow>
          (case val of
             None \<Rightarrow> ObjectSetNull fuel w obj attr
           | Some v \<Rightarrow>
               (case ObjectGetAttrIndex w obj attr (Some dt) True of
                  None \<Rightarrow> None
                | Some (w1, index) \<Rightarrow>
                    if 0 \<le> index then
                      (case ObjectGetAttr fuel pf w1 ob (nat index) of
                         None \<Rightarrow> None
                       | Some (w2, data, ind) \<Rightarrow>
                           (let ((w3, ob3), status) =
                                  OCI_EXEC True (func v ob (nat index) data ind) w2 ob
                            in if status then
                                 (case set_ind ob3 ind OCI_IND_NOTNULL of
                                    None \<Rightarrow> None
                                  | Some ob' \<Rightarrow> Some (w3, Some ob', True))
                               else Some (w3, Some ob3, False)))
                    else Some (w1, obj, False))))"

definition ObjectSetString ::
  "nat \<Rightarrow> platform \<Rightarrow> (string \<Rightarrow> 64 word \<Rightarrow> native_memory \<Rightarrow> native_memory \<times> bool) \<Rightarrow>
   world \<Rightarrow> OCI_Object option \<Rightarrow> string option \<Rightarrow> string option \<Rightarrow>
   (world \<times> OCI_Object option \<times> bool) option" where
  "ObjectSetString fuel pf StringToStringPtr w obj attr val =
     (case obj of
        None \<Rightarrow> Some (raise ExceptionNullPointer w, None, False)
      | Some ob \<Rightarrow>
          (case attr of
             None \<Rightarrow> Some (raise ExceptionNullPointer w, obj, False)
           | Some a \<Rightarrow>
               (case val of
                  None \<Rightarrow> ObjectSetNull fuel w obj attr
                | Some v \<Rightarrow>
                    (case ObjectGetAttrIndex w obj attr (Some OCI_CDT_TEXT) True of
                       None \<Rightarrow> None
                     | Some (w1, index) \<Rightarrow>
                         if 0 \<le> index then
                           (case ObjectGetAttr fuel pf w1 ob (nat index) of
                              None \<Rightarrow> None
                            | Some (w2, data, ind) \<Rightarrow>
                                (let (w3, status) = helper_call (StringToStringPtr v data) w2
                                 in if status then
                                      (case set_ind ob ind OCI_IND_NOTNULL of
                                         None \<Rightarrow> None
                                       | Some ob' \<Rightarrow> Some (w3, Some ob', True))
                                    else Some (w3, obj, False)))
                         else Some (w1, obj, False)))))"


text \<open>
  The macro \<open>OCI_OBJECT_GET_VALUE(datatype, object_type, type, func)\<close>; \<open>func\<close>
  builds the wrapper of the attribute and may fail with \<open>NULL\<close>. The indicator is read
  only when the attribute address is not null.
\<close>

definition OCI_OBJECT_GET_VALUE ::
  "nat \<Rightarrow> platform \<Rightarrow> cdt \<Rightarrow> (OCI_Object \<Rightarrow> nat \<Rightarrow> 64 word \<Rightarrow> world \<Rightarrow> world \<times> nat option) \<Rightarrow>
   world \<Rightarrow> OCI_Object option \<Rightarrow> string option \<Rightarrow>
   (world \<times> OCI_Object option \<times> nat option \<times> bool) option" where
  "OCI_OBJECT_GET_VALUE fuel pf dt func w obj attr =
     (case obj of
        None \<Rightarrow> Some (raise ExceptionNullPointer w, None, None, False)
      | Some ob \<Rightarrow>
          (case ObjectGetAttrIndex w obj attr (Some dt) True of
             None \<Rightarrow> None
           | Some (w1, index) \<Rightarrow>
               if 0 \<le> index then
                 (case ObjectGetAttr fuel pf w1 ob (nat index) of
                    None \<Rightarrow> None
                  | Some (w2, val, ind) \<Rightarrow>
                      if val \<noteq> 0 then
                        (case get_ind ob ind of
                           None \<Rightarrow> None
                         | Some iv \<Rightarrow>
                             if OCI_IND_NULL \<noteq> iv then
                               (let (w3, r) = func ob (nat index) val w2
                                in if nat index < length (objs ob)
                                   then Some (w3, Some (ob\<lparr>objs := (objs ob)[nat index := r]\<rparr>),
                                              r, r \<noteq> None)
                                   else None)
                             else Some (w2, obj, None, True))
                      else Some (w2, obj, None, True))
               else Some (w1, obj, None, False)))"

definition ObjectGetBoolean ::
  "nat \<Rightarrow> platform \<Rightarrow> world \<Rightarrow> OCI_Object option \<Rightarrow> string option \<Rightarrow>
   (world \<times> int \<times> bool) option" where
  "ObjectGetBoolean fuel pf w obj attr =
     (case obj of
        None \<Rightarrow> Some (raise ExceptionNullPointer w, 0, False)
      | Some ob \<Rightarrow>
          (case attr of
             None \<Rightarrow> Some (raise ExceptionNullPointer w, 0, False)
           | Some a \<Rightarrow>
               (case ObjectGetAttrIndex w obj attr (Some OCI_CDT_BOOLEAN) True of
                  None \<Rightarrow> None
                | Some (w1, index) \<Rightarrow>
                    if 0 \<le> index then
                      (case ObjectGetAttr fuel pf w1 ob (nat index) of
                         None \<Rightarrow> None
                       | Some (w2, val, ind) \<Rightarrow>
                           if val \<noteq> 0 then
                             (case get_ind ob ind of
                                None \<Rightarrow> None
                              | Some iv \<Rightarrow>
                                  if OCI_IND_NULL \<noteq> iv
                                  then Some (w2, mem_read (memory w2) val, True)
                                  else Some (w2, 0, True))
                           else Some (w2, 0, True))
                    else Some (w1, 0, False))))"

text \<open>
  \<open>ObjectGetNumberInternal\<close>; the out parameter \<open>value\<close> is passed in and returned.
  \<open>TranslateNumericValue\<close> and the conversion of a text attribute
  (\<open>NumberFromString\<close> applied to \<open>ObjectGetString\<close>) are parameters.
\<close>

definition ObjectGetNumberInternal ::
  "nat \<Rightarrow> platform \<Rightarrow>
   (64 word \<Rightarrow> 32 word \<Rightarrow> 32 word \<Rightarrow> int \<Rightarrow> native_memory \<Rightarrow> bool \<times> int) \<Rightarrow>
   (OCI_Object \<Rightarrow> string \<Rightarrow> 32 word \<Rightarrow> int \<Rightarrow> world \<Rightarrow> world \<times> bool \<times> int) \<Rightarrow>
   world \<Rightarrow> OCI_Object option \<Rightarrow> string option \<Rightarrow> int \<Rightarrow> 32 word \<Rightarrow>
   (world \<times> bool \<times> int) option" where
  "ObjectGetNumberInternal fuel pf TranslateNumericValue NumberFromObjectString
       w obj attr val flag =
     (case obj of
        None \<Rightarrow> Some (raise ExceptionNullPointer w, False, val)
      | Some ob \<Rightarrow>
          (case attr of
             None \<Rightarrow> Some (raise ExceptionNullPointer w, False, val)
           | Some a \<Rightarrow>
               (case ObjectGetAttrIndex w obj attr (Some OCI_CDT_NUMERIC) False of
                  None \<Rightarrow> None
                | Some (w1, index) \<Rightarrow>
                    if 0 \<le> index then
                      (case ObjectGetAttr fuel pf w1 ob (nat index) of
                         None \<Rightarrow> None
                       | Some (w2, ptr, ind) \<Rightarrow>
                           if ptr \<noteq> 0 then
                             (case get_ind ob ind of
                                None \<Rightarrow> None
                              | Some iv \<Rightarrow>
                                  if OCI_IND_NULL \<noteq> iv then
                                    (case deref (types w2) (obj_typinf ob) of
                                       None \<Rightarrow> None
                                     | Some ti \<Rightarrow>
                                         if nat index < length (cols ti) then
                                           (let (status, v) =
                                                  TranslateNumericValue ptr
                                                    (col_subtype (cols ti ! nat index)) flag val
                                                    (memory w2)
                                            in Some (w2, status, v))
                                         else None)
                                  else Some (w2, False, val))
                           else Some (w2, False, val))
                    else
                      (case ObjectGetAttrIndex w1 obj attr (Some OCI_CDT_TEXT) False of
                         None \<Rightarrow> None
                       | Some (w2, index2) \<Rightarrow>
                           if 0 \<le> index2 then
                             (let (w3, status, v) = NumberFromObjectString ob a flag val w2
                              in Some (w3, status, v))
                           else Some (raise (ExceptionAttributeNotFound a) w2, False, val)))))"

definition ObjectGetShort ::
  "nat \<Rightarrow> platform \<Rightarrow>
   (64 word \<Rightarrow> 32 word \<Rightarrow> 32 word \<Rightarrow> int \<Rightarrow> native_memory \<Rightarrow> bool \<times> int) \<Rightarrow>
   (OCI_Object \<Rightarrow> string \<Rightarrow> 32 word \<Rightarrow> int \<Rightarrow> world \<Rightarrow> world \<times> bool \<times> int) \<Rightarrow>
   world \<Rightarrow> OCI_Object option \<Rightarrow> string option \<Rightarrow> (world \<times> int) option" where
  "ObjectGetShort fuel pf TranslateNumericValue NumberFromObjectString w obj attr =
     map_option (\<lambda>(w', status, v). (w', v))
       (ObjectGetNumberInternal fuel pf TranslateNumericValue NumberFromObjectString
          w obj attr 0 (OCI_NUM_SHORT pf))"

section \<open>ObjectGetRealTypeInfo\<close>

text \<open>
  The native runtime and the type catalog are parameters: a record of the results of
  the calls that \<open>ObjectGetRealTypeInfo\<close> makes. Every call is logged in the world.
\<close>

record runtime =
  MemObjectNew_ok :: bool
  OCIObjectGetTypeRef_ok :: "64 word \<Rightarrow> bool"
  OCITypeByRef_res :: "64 word \<Rightarrow> bool \<times> nat option"
  ListExists_res :: "nat \<Rightarrow> bool"
  MemHandleAlloc_ok :: bool
  OCIDescribeAny_ok :: "nat \<Rightarrow> bool"
  OCIAttrGet_ok :: "nat \<Rightarrow> bool"
  StringGetAttribute_schema :: "nat \<Rightarrow> bool \<times> string"
  StringGetAttribute_name :: "nat \<Rightarrow> bool \<times> string"
  StringGetFullTypeName_res :: "string \<Rightarrow> string \<Rightarrow> string"
  TypeInfoGet_res :: "world \<Rightarrow> string \<Rightarrow> world \<times> nat option"

definition native :: "string \<Rightarrow> world \<Rightarrow> world" where
  "native n w = w\<lparr>native_calls := native_calls w @ [n]\<rparr>"

definition exec_native :: "bool \<Rightarrow> string \<Rightarrow> bool \<Rightarrow> world \<Rightarrow> world \<times> bool" where
  "exec_native status n ok w =
     (if status
      then (if ok then native n w else raise ExceptionOCI (native n w), ok)
      else (w, False))"

definition resolve_described ::
  "runtime \<Rightarrow> world \<Rightarrow> nat \<Rightarrow> nat \<Rightarrow> world \<times> nat option" where
  "resolve_described rt w p t =
     (let w5 = native ''MemHandleAlloc'' w;
          s5 = MemHandleAlloc_ok rt;
          (w6, s6) = exec_native s5 ''OCIDescribeAny'' (OCIDescribeAny_ok rt t) w5;
          (w7, s7) = exec_native s6 ''OCIAttrGet'' (OCIAttrGet_ok rt t) w6;
          (w8, s8) = (if s7 then (native ''StringGetAttribute'' w7,
                                   fst (StringGetAttribute_schema rt t))
                      else (w7, False));
          (w9, s9) = (if s8 then (native ''StringGetAttribute'' w8,
                                   fst (StringGetAttribute_name rt t))
                      else (w8, False));
          (w10, result) =
             (if s9 then
                TypeInfoGet_res rt (native ''TypeInfoGet'' w9)
                  (StringGetFullTypeName_res rt (snd (StringGetAttribute_schema rt t))
                     (snd (StringGetAttribute_name rt t)))
              else (w9, Some p))
      in (native ''MemHandleFree'' w10, result))"

definition ObjectGetRealTypeInfo ::
  "runtime \<Rightarrow> world \<Rightarrow> nat option \<Rightarrow> 64 word \<Rightarrow> (world \<times> nat option) option" where
  "ObjectGetRealTypeInfo rt w typinf object =
     (case typinf of
        None \<Rightarrow> Some (w, None)
      | Some p \<Rightarrow>
          (case deref (types w) p of
             None \<Rightarrow> None
           | Some ti \<Rightarrow>
               if object \<noteq> 0 \<and> tif_type ti = OCI_TIF_TYPE \<and> \<not> is_final ti then
                 (let (w1, s1) = exec_native True ''MemObjectNew'' (MemObjectNew_ok rt) w;
                      (w2, s2) = exec_native s1 ''OCIObjectGetTypeRef''
                                   (OCIObjectGetTypeRef_ok rt object) w1;
                      (w3, s3) = exec_native s2 ''OCITypeByRef''
                                   (fst (OCITypeByRef_res rt object)) w2;
                      tdo' = (if s2 then snd (OCITypeByRef_res rt object) else None);
                      (w4, result) =
                        (case tdo' of
                           None \<Rightarrow> (w3, Some p)
                         | Some t \<Rightarrow>
                             if t \<noteq> tdo ti then
                               (if ListExists_res rt t then (native ''ListExists'' w3, Some p)
                                else resolve_described rt (native ''ListExists'' w3) p t)
                             else (w3, Some p))
                  in (case result of
                        None \<Rightarrow> None
                      | Some r \<Rightarrow> Some (native ''MemObjectFree'' w4, Some r)))
               else Some (w, Some p)))"

section \<open>What the layout functions leave alone\<close>

text \<open>
  The layout functions write the cached size, the alignment and the entries of the
  offset table, and nothing else of a descriptor.
\<close>

definition shape :: "OCI_TypeInfo \<Rightarrow> OCI_TypeInfo" where
  "shape t = t\<lparr>struct_size := 0, align := 0, offsets := replicate (length (offsets t)) 0\<rparr>"

definition call_shape :: "struct_call \<Rightarrow> bool" where
  "call_shape call =
     (\<forall>S c out S' sz al. call S c out = Some (S', sz, al) \<longrightarrow> map shape S' = map shape S)"

text \<open>
  \<open>PERSON(NAME varchar, AGE int, ACTIVE boolean)\<close> and an instance whose \<open>AGE\<close> is
  null and whose \<open>ACTIVE\<close> has the indicator \<open>OCI_IND_BADNULL\<close>.
\<close>

definition ex_PERSON :: OCI_TypeInfo where
  "ex_PERSON = mk_type [mk_col ''NAME'' OCI_CDT_TEXT 0 None,
                        mk_col ''AGE'' OCI_CDT_NUMERIC 8 None,
                        mk_col ''ACTIVE'' OCI_CDT_BOOLEAN 0 None] None True 31"

definition ex_world :: world where
  "ex_world = \<lparr>types = [ex_PERSON], memory = [(4108, 1)], raised = [], native_calls = []\<rparr>"

definition ex_obj :: OCI_Object where
  "ex_obj = \<lparr>obj_typinf = 0, obj_handle = 4096, tab_ind = [0, 0, - 1, - 2], idx_ind = 0,
     objs = [None, None, None]\<rparr>"

text \<open>The catalog of the example after the layout of \<open>PERSON\<close> is computed.\<close>

definition ex_layout :: type_store where
  "ex_layout = [ex_PERSON\<lparr>struct_size := 16, align := 8, offsets := [0, 8, 12]\<rparr>]"

text \<open>An instance of \<open>PERSON\<close> whose \<open>AGE\<close> and \<open>ACTIVE\<close> have the indicator \<open>OCI_IND_BADNULL\<close>.\<close>

definition ex_obj_bad :: OCI_Object where
  "ex_obj_bad = ex_obj\<lparr>tab_ind := [0, 0, - 2, - 2]\<rparr>"


text \<open>A runtime for the examples: every call succeeds and the instance has the type 22.\<close>

definition ex_runtime :: runtime where
  "ex_runtime = \<lparr>MemObjectNew_ok = True, OCIObjectGetTypeRef_ok = (\<lambda>h. True),
     OCITypeByRef_res = (\<lambda>h. (True, Some 22)), ListExists_res = (\<lambda>t. True),
     MemHandleAlloc_ok = True, OCIDescribeAny_ok = (\<lambda>t. True), OCIAttrGet_ok = (\<lambda>t. True),
     StringGetAttribute_schema = (\<lambda>t. (True, ''SCOTT'')),
     StringGetAttribute_name = (\<lambda>t. (True, ''DERIVED'')),
     StringGetFullTypeName_res = (\<lambda>s n. s @ ''.'' @ n),
     TypeInfoGet_res = (\<lambda>w n. (w, Some 1))\<rparr>"

definition ex_hier_world :: world where
  "ex_hier_world = \<lparr>types = ex_hier, memory = [], raised = [], native_calls = []\<rparr>"

section \<open>Two runs of the layout side by side\<close>

text \<open>
  The arguments with which the layout of a descriptor calls \<open>ObjectGetStructSize\<close>
  again: the nested types of the object columns from index \<open>i0\<close> on, and the parent.
\<close>

definition col_args :: "nat \<Rightarrow> OCI_TypeInfo \<Rightarrow> nat option set" where
  "col_args i0 t =
     {col_typinf (cols t ! j) | j.
        i0 \<le> j \<and> j < nb_cols t \<and> col_datatype (cols t ! j) = OCI_CDT_OBJECT}"

definition first_own :: "type_store \<Rightarrow> OCI_TypeInfo \<Rightarrow> nat" where
  "first_own S t =
     (case parent_type t of
        None \<Rightarrow> 0
      | Some pp \<Rightarrow> (case deref S pp of None \<Rightarrow> 0 | Some par \<Rightarrow> nb_cols par))"

definition call_args :: "type_store \<Rightarrow> OCI_TypeInfo \<Rightarrow> nat option set" where
  "call_args S t =
     (case parent_type t of None \<Rightarrow> {} | Some pp \<Rightarrow> {Some pp}) \<union> col_args (first_own S t) t"

text \<open>
  A relation \<open>R\<close> between the stores of two runs on the descriptor \<open>p\<close> that the steps
  of the layout keep: both runs see the same record at \<open>p\<close> and at its parent, and
  \<open>R\<close> survives the same write to \<open>p\<close> on both sides.
\<close>

definition rel_ok ::
  "(type_store \<Rightarrow> type_store \<Rightarrow> bool) \<Rightarrow> nat \<Rightarrow> OCI_TypeInfo \<Rightarrow> nat \<Rightarrow> bool" where
  "rel_ok R p t0 i0 =
     ((\<forall>X Y. R X Y \<longrightarrow>
          deref Y p = deref X p \<and> (\<exists>t. deref X p = Some t \<and> shape t = shape t0)) \<and>
      (\<forall>X Y t'. R X Y \<longrightarrow> shape t' = shape t0 \<longrightarrow> R (X[p := t']) (Y[p := t'])) \<and>
      (\<forall>pp X Y. parent_type t0 = Some pp \<longrightarrow> R X Y \<longrightarrow>
          deref Y pp = deref X pp \<and> (\<forall>par. deref X pp = Some par \<longrightarrow> nb_cols par = i0)))"

definition rel_call ::
  "(type_store \<Rightarrow> type_store \<Rightarrow> bool) \<Rightarrow> nat option set \<Rightarrow> struct_call \<Rightarrow> struct_call \<Rightarrow> bool"
  where
  "rel_call R K call1 call2 =
     (\<forall>X Y c out X1 sz al.
        R X Y \<longrightarrow> c \<in> K \<longrightarrow> call1 X c out = Some (X1, sz, al) \<longrightarrow>
        (\<exists>Y1. call2 Y c out = Some (Y1, sz, al) \<and> R X1 Y1))"

text \<open>The first half of the body of the loop, named for the proofs.\<close>

definition loop_head ::
  "struct_call \<Rightarrow> platform \<Rightarrow> nat \<Rightarrow> nat \<Rightarrow> type_store \<Rightarrow> 64 word \<Rightarrow> 64 word \<Rightarrow> 64 word \<Rightarrow>
   64 word \<Rightarrow> (type_store \<times> 64 word \<times> 64 word) option" where
  "loop_head call pf p i S sz sz1 sz2 algn =
     (if 0 < i then
        (case set_offset S p i (ucast sz) of
           None \<Rightarrow> None
         | Some Sa \<Rightarrow> Some (Sa, sz2, algn))
      else
        (case ObjectGetAttrInfo call pf S p i (sz1, algn) of
           None \<Rightarrow> None
         | Some (S0, s1, a0) \<Rightarrow>
             (case set_offset S0 p i 0 of
                None \<Rightarrow> None
              | Some Sa \<Rightarrow> Some (Sa, s1, a0))))"

section \<open>Descriptors whose layout is settled\<close>

text \<open>
  No type contains itself: a rank on the descriptors goes down from a type to its
  parent and to the types of its object columns.
\<close>

definition ranked :: "(nat \<Rightarrow> nat) \<Rightarrow> type_store \<Rightarrow> bool" where
  "ranked r S =
     (\<forall>a t. deref S a = Some t \<longrightarrow>
        (\<forall>pp. parent_type t = Some pp \<longrightarrow> r pp < r a) \<and>
        (\<forall>c \<in> set (cols t). \<forall>q. col_datatype c = OCI_CDT_OBJECT \<longrightarrow>
           col_typinf c = Some q \<longrightarrow> r q < r a))"

text \<open>
  A descriptor is settled for a given fuel when a call on it returns the fields it
  holds and leaves the whole store as it is.
\<close>

definition settled :: "platform \<Rightarrow> type_store \<Rightarrow> nat \<Rightarrow> nat \<Rightarrow> bool" where
  "settled pf S h a =
     (\<exists>t. deref S a = Some t \<and>
        (\<forall>out. ObjectGetStructSize h pf S (Some a) out = Some (S, struct_size t, align t)))"

text \<open>
  A set of settled descriptors, each with a fuel, closed under the calls that the
  layout of its members of size zero makes.
\<close>

definition Done :: "platform \<Rightarrow> (nat \<times> nat) set \<Rightarrow> type_store \<Rightarrow> bool" where
  "Done pf D S =
     (\<forall>(h, a) \<in> D.
        settled pf S h a \<and>
        (\<forall>t c. deref S a = Some t \<longrightarrow> struct_size t = 0 \<longrightarrow> Some c \<in> call_args S t \<longrightarrow>
           (\<exists>k < h. (k, c) \<in> D)))"

section \<open>What a run on a descriptor keeps\<close>

text \<open>
  What a call with fuel \<open>n\<close> on a descriptor \<open>c\<close> does to the store: it leaves the
  descriptors that are not below \<open>c\<close> alone, it keeps every set of settled
  descriptors, and it leaves \<open>c\<close> settled with the fields it returns.
\<close>

definition sound :: "platform \<Rightarrow> (nat \<Rightarrow> nat) \<Rightarrow> nat \<Rightarrow> bool" where
  "sound pf r n =
     (\<forall>X c out X1 sz al.
        ranked r X \<longrightarrow> ObjectGetStructSize n pf X (Some c) out = Some (X1, sz, al) \<longrightarrow>
        (\<forall>b. \<not> r b \<le> r c \<longrightarrow> deref X1 b = deref X b) \<and>
        (\<forall>D. Done pf D X \<longrightarrow> Done pf D X1 \<and> (\<forall>b \<in> snd ` D. deref X1 b = deref X b)) \<and>
        (\<exists>D1 k t. Done pf D1 X1 \<and> k \<le> n \<and> (k, c) \<in> D1 \<and>
           deref X1 c = Some t \<and> sz = struct_size t \<and> al = align t))"

text \<open>
  What the steps of the layout of \<open>p\<close> keep from the store \<open>X\<close> to the store \<open>X'\<close>: the
  shape, the descriptors that are not below \<open>p\<close>, and every set of settled
  descriptors without \<open>p\<close>.
\<close>

definition keeps :: "platform \<Rightarrow> (nat \<Rightarrow> nat) \<Rightarrow> nat \<Rightarrow> type_store \<Rightarrow> type_store \<Rightarrow> bool" where
  "keeps pf r p X X' =
     (map shape X' = map shape X \<and>
      (\<forall>b. \<not> r b \<le> r p \<longrightarrow> deref X' b = deref X b) \<and>
      (\<forall>D. Done pf D X \<longrightarrow> p \<notin> snd ` D \<longrightarrow>
         Done pf D X' \<and> (\<forall>b \<in> snd ` D. deref X' b = deref X b)))"

text \<open>The descriptor \<open>c\<close> is settled in \<open>X\<close> with fuel at most \<open>n\<close>, in a set without \<open>p\<close>.\<close>

definition reached :: "platform \<Rightarrow> nat \<Rightarrow> nat \<Rightarrow> type_store \<Rightarrow> nat \<Rightarrow> bool" where
  "reached pf p n X c = (\<exists>D k. Done pf D X \<and> p \<notin> snd ` D \<and> (k, c) \<in> D \<and> k \<le> n)"

section \<open>Running the layout again on the store it produced\<close>

text \<open>
  The record of the descriptor in a second run, \<open>y\<close>, against its record in the first
  run, \<open>x\<close>, and the record \<open>f\<close> that the first run ends with: the second run starts
  from \<open>f\<close>, so an offset is either the one just written again or still the final
  one, and the alignment is the one of the first run raised by at most the final one.
\<close>

definition twin :: "OCI_TypeInfo \<Rightarrow> OCI_TypeInfo \<Rightarrow> OCI_TypeInfo \<Rightarrow> bool" where
  "twin f x y =
     (shape x = shape f \<and> shape y = shape f \<and> struct_size y = struct_size f \<and>
      (\<forall>k < length (offsets f). offsets y ! k = offsets x ! k \<or> offsets y ! k = offsets f ! k) \<and>
      (align x \<le> align f \<longrightarrow> (\<exists>c. c \<le> align f \<and> align y = max (align x) c)))"

text \<open>The end of \<open>ObjectGetAttrInfo\<close>: the alignment is raised to that of the member.\<close>

definition raise_align :: "OCI_TypeInfo \<Rightarrow> 64 word \<Rightarrow> OCI_TypeInfo" where
  "raise_align t al = (if align t < al then t\<lparr>align := al\<rparr> else t)"

text \<open>The nested type of the object column \<open>j\<close> of the descriptor is settled.\<close>

definition col_reached ::
  "platform \<Rightarrow> nat \<Rightarrow> nat \<Rightarrow> type_store \<Rightarrow> OCI_TypeInfo \<Rightarrow> nat \<Rightarrow> bool" where
  "col_reached pf p n X t j =
     (\<forall>q. j < nb_cols t \<longrightarrow> col_datatype (cols t ! j) = OCI_CDT_OBJECT \<longrightarrow>
        col_typinf (cols t ! j) = Some q \<longrightarrow> reached pf p n X q)"


chapter \<open>Properties\<close>

section \<open>Null indicator offsets\<close>

lemma IndOffset_loop_append:
  "IndOffset_loop call S cs (xs @ ys) j =
     (case IndOffset_loop call S cs xs j of
        None \<Rightarrow> None
      | Some j' \<Rightarrow> IndOffset_loop call S cs ys j')"
  by (induction xs arbitrary: j) (auto split: option.splits)

lemma ObjectGetIndOffset_Suc_index:
  assumes "deref S p = Some ti" and "i < 65535"
  shows "ObjectGetIndOffset (Suc fuel) S (Some p) (int i + 1) =
     (case ObjectGetIndOffset (Suc fuel) S (Some p) (int i) of
        None \<Rightarrow> None
      | Some j \<Rightarrow> IndOffset_loop (ObjectGetIndOffset fuel S) S (cols ti) [i] j)"
proof -
  have "nat (int i + 1) = Suc i" by simp
  then have "[0..<nat (int i + 1)] = [0..<i] @ [i]" by simp
  with assms show ?thesis
    by (simp add: IndOffset_loop_append del: IndOffset_loop.simps upt_Suc)
qed

lemma IndOffset_loop_flattened:
  assumes call: "\<And>q c. count q = Some c \<Longrightarrow>
      \<exists>nested. deref S q = Some nested \<and>
        call (Some q) (int (nb_cols nested)) = Some (1 + of_nat c)"
  shows "flattened_cols count (drop k cs) = Some c \<Longrightarrow> k \<le> length cs \<Longrightarrow>
     IndOffset_loop call S cs [k..<length cs] j = Some (j + of_nat c)"
proof (induction "length cs - k" arbitrary: k j c)
  case 0
  then show ?case by simp
next
  case (Suc n)
  then have k: "k < length cs" by simp
  then have d: "drop k cs = cs ! k # drop (Suc k) cs"
    by (simp add: Cons_nth_drop_Suc)
  have u: "[k..<length cs] = k # [Suc k..<length cs]"
    using k by (simp add: upt_conv_Cons)
  from Suc.prems(1) obtain a r where
    a: "(if col_datatype (cs ! k) = OCI_CDT_OBJECT
            then (case col_typinf (cs ! k) of None \<Rightarrow> None | Some q \<Rightarrow> map_option Suc (count q))
            else Some 1) = Some a"
    and r: "flattened_cols count (drop (Suc k) cs) = Some r" and c: "c = a + r"
    unfolding d by (auto split: option.splits)
  have n: "n = length cs - Suc k" using Suc.hyps(2) by simp
  have ih: "\<And>j. IndOffset_loop call S cs [Suc k..<length cs] j = Some (j + of_nat r)"
    using Suc.hyps(1) [OF n r] k by simp
  show ?case
  proof (cases "col_datatype (cs ! k) = OCI_CDT_OBJECT")
    case True
    with a obtain q b where q: "col_typinf (cs ! k) = Some q" and b: "count q = Some b"
      and ab: "a = Suc b"
      by (auto split: option.splits)
    from call [OF b] obtain nested where "deref S q = Some nested"
      and "call (Some q) (int (nb_cols nested)) = Some (1 + of_nat b)" by blast
    then show ?thesis
      unfolding u using k True q ih c ab by (simp add: algebra_simps)
  next
    case False
    with a have "a = 1" by simp
    then show ?thesis
      unfolding u using k False ih c by (simp add: algebra_simps)
  qed
qed

lemma ObjectGetIndOffset_flattened:
  assumes "ub2_cols S"
  shows "flattened_count fuel S p = Some c \<Longrightarrow>
    \<exists>ti. deref S p = Some ti \<and>
      ObjectGetIndOffset fuel S (Some p) (int (nb_cols ti)) = Some (1 + of_nat c)"
proof (induction fuel arbitrary: p c)
  case 0
  then show ?case by simp
next
  case (Suc fuel)
  from Suc.prems obtain ti where ti: "deref S p = Some ti"
    and fc: "flattened_cols (flattened_count fuel S) (cols ti) = Some c"
    by (auto split: option.splits)
  from ti have "ti \<in> set S" by (auto simp: deref_def split: if_splits)
  with assms have le: "nb_cols ti \<le> 65535" by (simp add: ub2_cols_def)
  have "IndOffset_loop (ObjectGetIndOffset fuel S) S (cols ti) [0..<length (cols ti)] 1
      = Some (1 + of_nat c)"
    by (rule IndOffset_loop_flattened [where count = "flattened_count fuel S" and k = 0])
       (use Suc.IH fc in auto)
  with ti le show ?case by (simp add: nb_cols_def)
qed

lemmas ex_defs = ex_store_def ex_OUTER_def ex_INNER_def mk_type_def mk_col_def deref_def
  nb_cols_def

text \<open>
  Claim C3. For a type whose column 0 is an object column with a nested type of two plain
  columns, the indicator offset computed for column 1 is 4. In general the running
  offset grows by 1 over a plain column and by 1 plus the flattened slot count of the
  nested type over an object column (in the 16-bit arithmetic of the \<open>ub2\<close> result).
\<close>

theorem ObjectGetIndOffset_nested_then_scalar:
  assumes "deref S p = Some ti" and "ub2_cols S"
  shows "(cols ti \<noteq> [] \<and> col_datatype (cols ti ! 0) = OCI_CDT_OBJECT \<and>
          col_typinf (cols ti ! 0) = Some q \<and> deref S q = Some nested \<and>
          nb_cols nested = 2 \<and>
          (\<forall>c \<in> set (cols nested). col_datatype c \<noteq> OCI_CDT_OBJECT)
          \<longrightarrow> ObjectGetIndOffset (Suc (Suc fuel)) S (Some p) 1 = Some 4)
       \<and> (\<forall>i. i < nb_cols ti \<and> i < 65535 \<longrightarrow>
            (col_datatype (cols ti ! i) \<noteq> OCI_CDT_OBJECT \<longrightarrow>
               ObjectGetIndOffset (Suc fuel) S (Some p) (int i + 1) =
                 map_option (\<lambda>j. j + 1) (ObjectGetIndOffset (Suc fuel) S (Some p) (int i)))
          \<and> (\<forall>r c. col_datatype (cols ti ! i) = OCI_CDT_OBJECT \<and>
                 col_typinf (cols ti ! i) = Some r \<and> flattened_count fuel S r = Some c \<longrightarrow>
               ObjectGetIndOffset (Suc fuel) S (Some p) (int i + 1) =
                 map_option (\<lambda>j. j + (1 + of_nat c))
                   (ObjectGetIndOffset (Suc fuel) S (Some p) (int i))))"
proof (intro conjI impI allI)
  assume h: "cols ti \<noteq> [] \<and> col_datatype (cols ti ! 0) = OCI_CDT_OBJECT \<and>
          col_typinf (cols ti ! 0) = Some q \<and> deref S q = Some nested \<and>
          nb_cols nested = 2 \<and>
          (\<forall>c \<in> set (cols nested). col_datatype c \<noteq> OCI_CDT_OBJECT)"
  then obtain a b where ab: "cols nested = [a, b]"
    by (auto simp: nb_cols_def length_Suc_conv numeral_2_eq_2)
  with h have "col_datatype a \<noteq> OCI_CDT_OBJECT" "col_datatype b \<noteq> OCI_CDT_OBJECT"
    by auto
  then have "ObjectGetIndOffset (Suc fuel) S (Some q) 2 = Some 3"
    using h ab by (simp add: numeral_2_eq_2 upt_rec [of 0] upt_rec [of "Suc 0"])
  then show "ObjectGetIndOffset (Suc (Suc fuel)) S (Some p) 1 = Some 4"
    using h assms(1) ab by (simp add: nb_cols_def)
next
  fix i
  assume i: "i < nb_cols ti \<and> i < 65535" and c: "col_datatype (cols ti ! i) \<noteq> OCI_CDT_OBJECT"
  show "ObjectGetIndOffset (Suc fuel) S (Some p) (int i + 1) =
      map_option (\<lambda>j. j + 1) (ObjectGetIndOffset (Suc fuel) S (Some p) (int i))"
    using i c unfolding ObjectGetIndOffset_Suc_index [OF assms(1) conjunct2 [OF i]]
    by (simp add: nb_cols_def split: option.splits)
next
  fix i r c
  assume i: "i < nb_cols ti \<and> i < 65535"
    and c: "col_datatype (cols ti ! i) = OCI_CDT_OBJECT \<and>
                 col_typinf (cols ti ! i) = Some r \<and> flattened_count fuel S r = Some c"
  from ObjectGetIndOffset_flattened [OF assms(2), of fuel r c] c
  obtain nested where "deref S r = Some nested"
    and "ObjectGetIndOffset fuel S (Some r) (int (nb_cols nested)) = Some (1 + of_nat c)"
    by blast
  then show "ObjectGetIndOffset (Suc fuel) S (Some p) (int i + 1) =
      map_option (\<lambda>j. j + (1 + of_nat c)) (ObjectGetIndOffset (Suc fuel) S (Some p) (int i))"
    using i c unfolding ObjectGetIndOffset_Suc_index [OF assms(1) conjunct2 [OF i]]
    by (simp add: nb_cols_def split: option.splits)
qed

theorem ObjectGetIndOffset_nested_then_scalar_witness:
  "deref ex_store 1 = Some ex_OUTER \<and> ub2_cols ex_store \<and>
   ObjectGetIndOffset (Suc (Suc 0)) ex_store (Some 1) 1 = Some 4 \<and>
   flattened_count (Suc 0) ex_store 0 = Some 2 \<and>
   ObjectGetIndOffset (Suc (Suc 0)) ex_store (Some 1) (int 0 + 1) =
     map_option (\<lambda>j. j + (1 + of_nat 2)) (ObjectGetIndOffset (Suc (Suc 0)) ex_store (Some 1) (int 0)) \<and>
   ObjectGetIndOffset (Suc (Suc 0)) ex_store (Some 1) (int 1 + 1) =
     map_option (\<lambda>j. j + 1) (ObjectGetIndOffset (Suc (Suc 0)) ex_store (Some 1) (int 1))"
proof -
  have h1: "deref ex_store 1 = Some ex_OUTER" by (simp add: ex_defs)
  have h2: "ub2_cols ex_store" by (simp add: ub2_cols_def ex_defs)
  have h3: "flattened_count (Suc 0) ex_store 0 = Some 2" by (simp add: ex_defs)
  note t = ObjectGetIndOffset_nested_then_scalar [OF h1 h2, where q = 0 and nested = ex_INNER]
  have a: "ObjectGetIndOffset (Suc (Suc 0)) ex_store (Some 1) 1 = Some 4"
    by (rule t [where fuel = 0, THEN conjunct1, rule_format]) (simp add: ex_defs)
  have b: "ObjectGetIndOffset (Suc (Suc 0)) ex_store (Some 1) (int 0 + 1) =
     map_option (\<lambda>j. j + (1 + of_nat 2)) (ObjectGetIndOffset (Suc (Suc 0)) ex_store (Some 1) (int 0))"
    by (rule t [where fuel = "Suc 0", THEN conjunct2, rule_format, of 0, THEN conjunct2, rule_format, of 0 2])
       (simp_all add: ex_defs)
  have c: "ObjectGetIndOffset (Suc (Suc 0)) ex_store (Some 1) (int 1 + 1) =
     map_option (\<lambda>j. j + 1) (ObjectGetIndOffset (Suc (Suc 0)) ex_store (Some 1) (int 1))"
    by (rule t [where fuel = "Suc 0", THEN conjunct2, rule_format, of 1, THEN conjunct1, rule_format])
       (simp_all add: ex_defs)
  from h1 h2 h3 a b c show ?thesis by blast
qed

text \<open>
  Claim C4, as amended. The offset counts forward from 1, the slot after the composite's
  own indicator: for a non-null type the offset of index 0 is 1, a plain column adds 1
  and an object column adds the offset that the nested type computes for its own column
  count (which already holds the nested object's own slot).
\<close>

theorem ObjectGetIndOffset_counts_from_one:
  assumes "deref S p = Some ti"
  shows "ObjectGetIndOffset (Suc fuel) S (Some p) 0 = Some 1
       \<and> (\<forall>i. i < nb_cols ti \<and> i < 65535 \<longrightarrow>
            (col_datatype (cols ti ! i) \<noteq> OCI_CDT_OBJECT \<longrightarrow>
               ObjectGetIndOffset (Suc fuel) S (Some p) (int i + 1) =
                 map_option (\<lambda>j. j + 1) (ObjectGetIndOffset (Suc fuel) S (Some p) (int i)))
          \<and> (\<forall>q nested. col_datatype (cols ti ! i) = OCI_CDT_OBJECT \<and>
                 col_typinf (cols ti ! i) = Some q \<and> deref S q = Some nested \<longrightarrow>
               ObjectGetIndOffset (Suc fuel) S (Some p) (int i + 1) =
                 (case ObjectGetIndOffset (Suc fuel) S (Some p) (int i) of
                    None \<Rightarrow> None
                  | Some j \<Rightarrow> map_option (\<lambda>k. j + k)
                      (ObjectGetIndOffset fuel S (Some q) (int (nb_cols nested))))))"
proof (intro conjI impI allI)
  show "ObjectGetIndOffset (Suc fuel) S (Some p) 0 = Some 1"
    using assms by simp
next
  fix i
  assume i: "i < nb_cols ti \<and> i < 65535" and c: "col_datatype (cols ti ! i) \<noteq> OCI_CDT_OBJECT"
  show "ObjectGetIndOffset (Suc fuel) S (Some p) (int i + 1) =
      map_option (\<lambda>j. j + 1) (ObjectGetIndOffset (Suc fuel) S (Some p) (int i))"
    using i c unfolding ObjectGetIndOffset_Suc_index [OF assms(1) conjunct2 [OF i]]
    by (simp add: nb_cols_def split: option.splits)
next
  fix i q nested
  assume i: "i < nb_cols ti \<and> i < 65535"
    and c: "col_datatype (cols ti ! i) = OCI_CDT_OBJECT \<and>
                 col_typinf (cols ti ! i) = Some q \<and> deref S q = Some nested"
  show "ObjectGetIndOffset (Suc fuel) S (Some p) (int i + 1) =
      (case ObjectGetIndOffset (Suc fuel) S (Some p) (int i) of
         None \<Rightarrow> None
       | Some j \<Rightarrow> map_option (\<lambda>k. j + k)
           (ObjectGetIndOffset fuel S (Some q) (int (nb_cols nested))))"
    using i c unfolding ObjectGetIndOffset_Suc_index [OF assms(1) conjunct2 [OF i]]
    by (simp add: nb_cols_def split: option.splits)
qed

theorem ObjectGetIndOffset_counts_from_one_witness:
  "deref ex_store 1 = Some ex_OUTER \<and>
   ObjectGetIndOffset (Suc (Suc 0)) ex_store (Some 1) 0 = Some 1 \<and>
   ObjectGetIndOffset (Suc (Suc 0)) ex_store (Some 1) (int 0 + 1) = Some 4 \<and>
   ObjectGetIndOffset (Suc (Suc 0)) ex_store (Some 1) (int 1 + 1) = Some 5"
proof -
  have h1: "deref ex_store 1 = Some ex_OUTER" by (simp add: ex_defs)
  note t = ObjectGetIndOffset_counts_from_one [OF h1, where fuel = "Suc 0"]
  have a: "ObjectGetIndOffset (Suc (Suc 0)) ex_store (Some 1) 0 = Some 1"
    by (rule t [THEN conjunct1])
  have n: "ObjectGetIndOffset (Suc 0) ex_store (Some 0) (int (nb_cols ex_INNER)) = Some 3"
    by (simp add: ex_defs numeral_2_eq_2 upt_rec [of 0] upt_rec [of "Suc 0"])
  have "ObjectGetIndOffset (Suc (Suc 0)) ex_store (Some 1) (int 0 + 1) =
      (case ObjectGetIndOffset (Suc (Suc 0)) ex_store (Some 1) (int 0) of
         None \<Rightarrow> None
       | Some j \<Rightarrow> map_option (\<lambda>k. j + k)
           (ObjectGetIndOffset (Suc 0) ex_store (Some 0) (int (nb_cols ex_INNER))))"
    by (rule t [THEN conjunct2, rule_format, of 0, THEN conjunct2, rule_format])
       (simp_all add: ex_defs)
  with a n have b: "ObjectGetIndOffset (Suc (Suc 0)) ex_store (Some 1) (int 0 + 1) = Some 4"
    by simp
  have "ObjectGetIndOffset (Suc (Suc 0)) ex_store (Some 1) (int 1 + 1) =
     map_option (\<lambda>j. j + 1) (ObjectGetIndOffset (Suc (Suc 0)) ex_store (Some 1) (int 1))"
    by (rule t [THEN conjunct2, rule_format, of 1, THEN conjunct1, rule_format])
       (simp_all add: ex_defs)
  with b have c: "ObjectGetIndOffset (Suc (Suc 0)) ex_store (Some 1) (int 1 + 1) = Some 5"
    by simp
  from h1 a b c show ?thesis by blast
qed

text \<open>
  Claim C4 as stated fails: over the empty column range the offset of a non-null type
  is 1, not 0.
\<close>

theorem ObjectGetIndOffset_index0_counterexample:
  "ObjectGetIndOffset (Suc 0) ex_store (Some 1) 0 = Some 1 \<and>
   ObjectGetIndOffset (Suc 0) ex_store (Some 1) 0 \<noteq> Some 0"
  by (simp add: ex_defs)

text \<open>
  Claim C1 fails on a subtype that declares no attribute of its own. \<open>DERIVED\<close> is
  created under \<open>BASE(ID int)\<close> and adds nothing: \<open>nb_cols\<close> equals the parent's, the
  branch that sets \<open>typinf->align\<close> to the parent's alignment is skipped, and the final
  \<open>ROUNDUP(size + size2, typinf->align)\<close> rounds the parent's size 4 to the alignment 0 of
  the fresh descriptor. With the usual power-of-two mask for \<open>ROUNDUP\<close> the size of
  \<open>DERIVED\<close> is 0, below the parent's 4. The prefix of the offset table is copied.
  It makes no difference whether the layout of \<open>BASE\<close> is computed by the same call
  or was computed before.
\<close>

theorem derived_without_own_columns_has_size_zero:
  "map_option (\<lambda>(S, sz, al). (sz, al, map struct_size S, map align S, map offsets S))
     (ObjectGetStructSize 2 lp64 ex_hier (Some 1) (0, 0))
   = Some (0, 0, [4, 0, 0], [4, 0, 0], [[0], [0], [0, 0, 0]]) \<and>
   map_option (\<lambda>(S, sz, al). (sz, al, map struct_size S, map align S, map offsets S))
     (ObjectGetStructSize 2 lp64 ex_hier_laid (Some 1) (0, 0))
   = Some (0, 0, [4, 0, 0], [4, 0, 0], [[0], [0], [0, 0, 0]])"
  by code_simp

lemma deref_Some: "deref S p = Some t \<longleftrightarrow> p < length S \<and> t = S ! p"
  by (auto simp: deref_def)

lemma deref_None: "deref S p = None \<longleftrightarrow> length S \<le> p"
  by (auto simp: deref_def)

lemma deref_update:
  "deref (S[p := t]) q = (if q = p \<and> p < length S then Some t else deref S q)"
  by (auto simp: deref_def)

lemma shape_simps [simp]:
  "shape (t\<lparr>align := a\<rparr>) = shape t"
  "shape (t\<lparr>struct_size := s\<rparr>) = shape t"
  "shape (t\<lparr>offsets := (offsets t)[i := v]\<rparr>) = shape t"
  "cols (shape t) = cols t"
  "parent_type (shape t) = parent_type t"
  "length (offsets (shape t)) = length (offsets t)"
  by (simp_all add: shape_def)

lemma shape_update:
  "deref S p = Some t \<Longrightarrow> shape t' = shape t \<Longrightarrow> map shape (S[p := t']) = map shape S"
  by (simp add: deref_Some map_update list_update_same_conv)

lemma shape_deref:
  assumes "map shape S' = map shape S" and "deref S p = Some t"
  shows "\<exists>t'. deref S' p = Some t' \<and> shape t' = shape t"
proof -
  from assms(1) have l: "length S' = length S" by (metis length_map)
  from assms(2) have p: "p < length S" and t: "t = S ! p" by (simp_all add: deref_Some)
  have "map shape S' ! p = map shape S ! p" using assms(1) by simp
  with p l t show ?thesis by (simp add: deref_Some)
qed

lemma shape_cols: "shape t' = shape t \<Longrightarrow> cols t' = cols t"
  by (metis shape_simps(4))

lemma shape_parent: "shape t' = shape t \<Longrightarrow> parent_type t' = parent_type t"
  by (metis shape_simps(5))

lemma shape_offsets: "shape t' = shape t \<Longrightarrow> length (offsets t') = length (offsets t)"
  by (metis shape_simps(6))

lemma shape_nb_cols: "shape t' = shape t \<Longrightarrow> nb_cols t' = nb_cols t"
  unfolding nb_cols_def by (drule shape_cols) simp

lemma set_offset_shape: "set_offset S p i v = Some S' \<Longrightarrow> map shape S' = map shape S"
  by (auto simp: set_offset_def shape_update split: option.splits if_splits)

lemma copy_offsets_shape: "copy_offsets S p pp is = Some S' \<Longrightarrow> map shape S' = map shape S"
proof (induction "is" arbitrary: S)
  case Nil
  then show ?case by simp
next
  case (Cons i "is")
  then show ?case
    by (auto split: option.splits if_splits dest!: set_offset_shape)
qed

lemma ObjectGetAttrInfo_shape:
  assumes "call_shape call" and "ObjectGetAttrInfo call pf S p i out = Some (S', sz, al)"
  shows "map shape S' = map shape S"
proof -
  have c: "\<And>S c out S' sz al. call S c out = Some (S', sz, al) \<Longrightarrow> map shape S' = map shape S"
    using assms(1) unfolding call_shape_def by blast
  from assms(2) show ?thesis
    unfolding ObjectGetAttrInfo_def
    by (auto simp: Let_def shape_update split: option.splits if_splits dest!: c)
qed

lemma layout_loop_shape:
  assumes "call_shape call"
  shows "layout_loop call pf p is (S, st) = Some (S', st') \<Longrightarrow> map shape S' = map shape S"
proof (induction "is" arbitrary: S st)
  case Nil
  then show ?case by simp
next
  case (Cons i "is")
  obtain sz sz1 sz2 algn where st: "st = (sz, sz1, sz2, algn)" by (cases st) auto
  from Cons.prems show ?case
    unfolding st
    by (auto split: option.splits if_splits prod.splits
          dest!: set_offset_shape ObjectGetAttrInfo_shape [OF assms] Cons.IH)
qed

lemma layout_parent_shape:
  assumes "call_shape call" and "layout_parent call pf S p ti = Some (S', r)"
  shows "map shape S' = map shape S"
proof -
  have c: "\<And>S c out S' sz al. call S c out = Some (S', sz, al) \<Longrightarrow> map shape S' = map shape S"
    using assms(1) unfolding call_shape_def by blast
  from assms(2) show ?thesis
    unfolding layout_parent_def
    by (auto simp: shape_update split: option.splits if_splits
          dest!: c copy_offsets_shape ObjectGetAttrInfo_shape [OF assms(1)])
qed

lemma compute_layout_shape:
  assumes "call_shape call" and "compute_layout call pf S p = Some S'"
  shows "map shape S' = map shape S"
  using assms(2) unfolding compute_layout_def
  by (auto simp: shape_update split: option.splits prod.splits
        dest!: layout_parent_shape [OF assms(1)] layout_loop_shape [OF assms(1)])

lemma ObjectGetStructSize_call_shape: "call_shape (ObjectGetStructSize fuel pf)"
proof (induction fuel)
  case 0
  then show ?case by (auto simp: call_shape_def split: option.splits)
next
  case (Suc fuel)
  show ?case
    unfolding call_shape_def
    by (auto split: option.splits if_splits dest!: compute_layout_shape [OF Suc])
qed

lemma ObjectGetStructSize_shape:
  "ObjectGetStructSize fuel pf S c out = Some (S', sz, al) \<Longrightarrow> map shape S' = map shape S"
  using ObjectGetStructSize_call_shape [of fuel pf] unfolding call_shape_def by blast

lemma IndOffset_loop_shape:
  assumes "map shape S' = map shape S"
  shows "IndOffset_loop call S' cs is j = IndOffset_loop call S cs is j"
proof (induction "is" arbitrary: j)
  case Nil
  then show ?case by simp
next
  case (Cons i "is")
  have d: "\<And>q. map_option nb_cols (deref S' q) = map_option nb_cols (deref S q)"
  proof -
    fix q
    show "map_option nb_cols (deref S' q) = map_option nb_cols (deref S q)"
    proof (cases "deref S q")
      case None
      then have "length S \<le> q" by (simp add: deref_None)
      moreover have "length S' = length S" using assms(1) by (metis length_map)
      ultimately show ?thesis using None by (simp add: deref_def)
    next
      case (Some t)
      from shape_deref [OF assms(1) Some] obtain t' where "deref S' q = Some t'"
        and "shape t' = shape t" by blast
      then show ?thesis using Some shape_nb_cols [of t' t] by simp
    qed
  qed
  show ?case
  proof (cases "i < length cs \<and> col_datatype (cs ! i) = OCI_CDT_OBJECT")
    case True
    show ?thesis
    proof (cases "col_typinf (cs ! i)")
      case None
      with True show ?thesis by simp
    next
      case (Some q)
      with True d [of q] show ?thesis
        by (cases "deref S q"; cases "deref S' q")
           (auto simp: Cons.IH split: option.splits)
    qed
  next
    case False
    then show ?thesis by (auto simp: Cons.IH)
  qed
qed

lemma ObjectGetIndOffset_shape:
  assumes "map shape S' = map shape S"
  shows "ObjectGetIndOffset fuel S' ty i = ObjectGetIndOffset fuel S ty i"
proof (induction fuel arbitrary: ty i)
  case 0
  then show ?case by simp
next
  case (Suc fuel)
  show ?case
  proof (cases ty)
    case None
    then show ?thesis by simp
  next
    case (Some p)
    show ?thesis
    proof (cases "deref S p")
      case None
      then have "length S \<le> p" by (simp add: deref_None)
      moreover have "length S' = length S" using assms(1) by (metis length_map)
      ultimately show ?thesis using None Some by (simp add: deref_def)
    next
      case t: (Some t)
      from shape_deref [OF assms t] obtain t' where t': "deref S' p = Some t'"
        and s: "shape t' = shape t" by blast
      have e: "ObjectGetIndOffset fuel S' = ObjectGetIndOffset fuel S"
        by (intro ext) (rule Suc.IH)
      show ?thesis
        using Some t t' shape_cols [OF s]
        by (simp add: e IndOffset_loop_shape [OF assms])
    qed
  qed
qed

lemma ObjectGetAttrIndex_found:
  "ObjectGetAttrIndex w obj attr ty chk = Some (w1, index) \<Longrightarrow> 0 \<le> index \<Longrightarrow> w1 = w"
  by (auto simp: ObjectGetAttrIndex_def Let_def split: option.splits if_splits)

lemma ObjectGetAttrIndex_scan:
  "deref (types w) (obj_typinf ob) = Some ti \<Longrightarrow> 0 \<le> attr_scan (cols ti) a ty 0 \<Longrightarrow>
   ObjectGetAttrIndex w (Some ob) (Some a) ty chk = Some (w, attr_scan (cols ti) a ty 0)"
  by (auto simp: ObjectGetAttrIndex_def Let_def)

lemma ObjectGetAttr_frame:
  assumes "ObjectGetAttr fuel pf w ob i = Some (w2, v, ind)"
  shows "raised w2 = raised w \<and> memory w2 = memory w \<and> native_calls w2 = native_calls w \<and>
         map shape (types w2) = map shape (types w) \<and>
         (\<exists>off. ObjectGetIndOffset fuel (types w) (Some (obj_typinf ob)) (int i) = Some off \<and>
                ind = idx_ind ob + uint off)"
proof -
  from assms obtain ti where ti: "deref (types w) (obj_typinf ob) = Some ti"
    unfolding ObjectGetAttr_def by (auto split: option.splits)
  show ?thesis
  proof (cases "struct_size ti = 0")
    case True
    from assms ti True obtain S' sz al where
      g: "ObjectGetStructSize fuel pf (types w) (Some (obj_typinf ob)) (0, 0) = Some (S', sz, al)"
      unfolding ObjectGetAttr_def by (auto split: option.splits)
    from assms ti True obtain off where
      off: "ObjectGetIndOffset fuel S' (Some (obj_typinf ob)) (int i) = Some off"
      and w2: "w2 = w\<lparr>types := S'\<rparr>" and ind: "ind = idx_ind ob + uint off"
      unfolding ObjectGetAttr_def g by (auto split: option.splits if_splits)
    have sh: "map shape S' = map shape (types w)"
      using g by (rule ObjectGetStructSize_shape)
    from off have "ObjectGetIndOffset fuel (types w) (Some (obj_typinf ob)) (int i) = Some off"
      by (simp add: ObjectGetIndOffset_shape [OF sh])
    with w2 ind sh show ?thesis by simp
  next
    case False
    from assms ti False obtain off where
      off: "ObjectGetIndOffset fuel (types w) (Some (obj_typinf ob)) (int i) = Some off"
      and w2: "w2 = w" and ind: "ind = idx_ind ob + uint off"
      unfolding ObjectGetAttr_def by (auto split: option.splits if_splits)
    then show ?thesis by simp
  qed
qed


text \<open>
  Claim C5. A setter called with an absent value on an existing attribute does what
  \<open>ObjectSetNull\<close> does: the indicator of the attribute becomes \<open>OCI_IND_NULL\<close>, the
  call reports success, and the world (the native memory with it) is unchanged; the
  native assignment is not run, whatever it is.
\<close>

theorem set_absent_value_marks_null:
  assumes "ObjectGetAttrIndex w (Some ob) (Some a) None True = Some (w1, index)"
    and "0 \<le> index"
    and "ObjectGetIndOffset fuel (types w) (Some (obj_typinf ob)) index = Some off"
    and "0 \<le> idx_ind ob + uint off"
    and "nat (idx_ind ob + uint off) < length (tab_ind ob)"
  shows "\<exists>ob'. ob' = ob\<lparr>tab_ind := (tab_ind ob)[nat (idx_ind ob + uint off) := OCI_IND_NULL]\<rparr> \<and>
           OCI_OBJECT_SET_VALUE fuel pf dt
               (func :: 'v \<Rightarrow> OCI_Object \<Rightarrow> nat \<Rightarrow> 64 word \<Rightarrow> int \<Rightarrow> native_state \<Rightarrow>
                          native_state \<times> bool)
               w (Some ob) (Some a) None
             = Some (w, Some ob', True) \<and>
           ObjectSetString fuel pf sts w (Some ob) (Some a) None = Some (w, Some ob', True) \<and>
           ObjectSetNull fuel w (Some ob) (Some a) = Some (w, Some ob', True) \<and>
           get_ind ob' (idx_ind ob + uint off) = Some OCI_IND_NULL \<and>
           ObjectIsNull fuel w (Some ob') (Some a) = Some (w, True)"
proof -
  have w1: "w1 = w" using assms(1,2) by (rule ObjectGetAttrIndex_found)
  define ob' where "ob' = ob\<lparr>tab_ind := (tab_ind ob)[nat (idx_ind ob + uint off) := OCI_IND_NULL]\<rparr>"
  have n: "ObjectSetNull fuel w (Some ob) (Some a) = Some (w, Some ob', True)"
    using assms w1 by (simp add: ObjectSetNull_def set_ind_def ob'_def)
  have i: "ObjectGetAttrIndex w (Some ob') (Some a) None True = Some (w, index)"
    using assms(1) w1 by (simp add: ObjectGetAttrIndex_def ob'_def)
  have g: "get_ind ob' (idx_ind ob + uint off) = Some OCI_IND_NULL"
    using assms(4,5) by (simp add: get_ind_def ob'_def)
  have "ObjectIsNull fuel w (Some ob') (Some a) = Some (w, True)"
    using i assms(2,3) g
    by (simp add: ObjectIsNull_def ob'_def OCI_IND_NULL_def OCI_IND_NOTNULL_def)
  with n g show ?thesis
    by (simp add: OCI_OBJECT_SET_VALUE_def ObjectSetString_def ob'_def)
qed

theorem set_absent_value_marks_null_witness:
  "ObjectGetAttrIndex ex_world (Some ex_obj) (Some ''name'') None True = Some (ex_world, 0) \<and>
   ObjectGetIndOffset 1 (types ex_world) (Some (obj_typinf ex_obj)) 0 = Some 1 \<and>
   OCI_OBJECT_SET_VALUE 1 lp64 OCI_CDT_LOB (\<lambda>v ob i d k s. (s, True)) ex_world (Some ex_obj)
      (Some ''name'') (None :: nat option)
     = Some (ex_world, Some (ex_obj\<lparr>tab_ind := [0, - 1, - 1, - 2]\<rparr>), True)"
proof -
  have h1: "ObjectGetAttrIndex ex_world (Some ex_obj) (Some ''name'') None True = Some (ex_world, 0)"
    by code_simp
  have h2: "ObjectGetIndOffset 1 (types ex_world) (Some (obj_typinf ex_obj)) 0 = Some 1"
    by (simp add: ex_world_def ex_obj_def deref_def)
  have h3: "0 \<le> idx_ind ex_obj + uint (1 :: 16 word)" by (simp add: ex_obj_def)
  have h4: "nat (idx_ind ex_obj + uint (1 :: 16 word)) < length (tab_ind ex_obj)"
    by (simp add: ex_obj_def)
  have h0: "(0 :: int) \<le> 0" by simp
  from set_absent_value_marks_null [OF h1 h0 h2 h3 h4, where 'v = nat and pf = lp64 and dt = OCI_CDT_LOB
      and func = "\<lambda>v ob i d k s. (s, True)" and sts = "\<lambda>v d m. (m, True)"]
  have "OCI_OBJECT_SET_VALUE 1 lp64 OCI_CDT_LOB (\<lambda>v ob i d k s. (s, True)) ex_world (Some ex_obj)
      (Some ''name'') (None :: nat option)
     = Some (ex_world, Some (ex_obj\<lparr>tab_ind := (tab_ind ex_obj)[nat (idx_ind ex_obj + uint (1 :: 16 word)) := OCI_IND_NULL]\<rparr>), True)"
    by simp
  then show ?thesis using h1 h2 by (simp add: ex_obj_def OCI_IND_NULL_def)
qed

text \<open>
  Claim C7. When the indicator of the attribute is \<open>OCI_IND_NULL\<close>, no diagnostic is
  raised, the getters built with \<open>OCI_OBJECT_GET_VALUE\<close> return a null wrapper with the
  status \<open>TRUE\<close>, \<open>ObjectGetBoolean\<close> returns \<open>FALSE\<close> with the status \<open>TRUE\<close>,
  and \<open>ObjectGetShort\<close> returns 0.
\<close>

theorem null_attribute_reads_as_no_value:
  assumes "deref (types w) (obj_typinf ob) = Some ti"
    and "ObjectGetAttr fuel pf w ob (nat index) = Some (w2, val, ind)"
    and "get_ind ob ind = Some OCI_IND_NULL"
    and "0 \<le> index"
  shows "raised w2 = raised w
       \<and> (attr_scan (cols ti) a (Some dt) 0 = index \<longrightarrow>
            OCI_OBJECT_GET_VALUE fuel pf dt func w (Some ob) (Some a)
              = Some (w2, Some ob, None, True))
       \<and> (attr_scan (cols ti) a (Some OCI_CDT_BOOLEAN) 0 = index \<longrightarrow>
            ObjectGetBoolean fuel pf w (Some ob) (Some a) = Some (w2, 0, True))
       \<and> (attr_scan (cols ti) a (Some OCI_CDT_NUMERIC) 0 = index \<longrightarrow>
            ObjectGetShort fuel pf tnv nfs w (Some ob) (Some a) = Some (w2, 0))"
proof (intro conjI impI)
  show "raised w2 = raised w"
    using ObjectGetAttr_frame [OF assms(2)] by simp
next
  assume "attr_scan (cols ti) a (Some dt) 0 = index"
  with assms(4) have "ObjectGetAttrIndex w (Some ob) (Some a) (Some dt) True = Some (w, index)"
    using ObjectGetAttrIndex_scan [OF assms(1), of a "Some dt" True] by simp
  with assms show "OCI_OBJECT_GET_VALUE fuel pf dt func w (Some ob) (Some a)
              = Some (w2, Some ob, None, True)"
    by (simp add: OCI_OBJECT_GET_VALUE_def)
next
  assume "attr_scan (cols ti) a (Some OCI_CDT_BOOLEAN) 0 = index"
  with assms(4) have "ObjectGetAttrIndex w (Some ob) (Some a) (Some OCI_CDT_BOOLEAN) True
      = Some (w, index)"
    using ObjectGetAttrIndex_scan [OF assms(1), of a "Some OCI_CDT_BOOLEAN" True] by simp
  with assms show "ObjectGetBoolean fuel pf w (Some ob) (Some a) = Some (w2, 0, True)"
    by (simp add: ObjectGetBoolean_def)
next
  assume "attr_scan (cols ti) a (Some OCI_CDT_NUMERIC) 0 = index"
  with assms(4) have "ObjectGetAttrIndex w (Some ob) (Some a) (Some OCI_CDT_NUMERIC) False
      = Some (w, index)"
    using ObjectGetAttrIndex_scan [OF assms(1), of a "Some OCI_CDT_NUMERIC" False] by simp
  with assms show "ObjectGetShort fuel pf tnv nfs w (Some ob) (Some a) = Some (w2, 0)"
    by (auto simp: ObjectGetShort_def ObjectGetNumberInternal_def)
qed

lemma ex_PERSON_layout:
  "ObjectGetStructSize 1 lp64 [ex_PERSON] (Some 0) (0, 0) = Some (ex_layout, 16, 8)"
  by code_simp

lemma ex_GetAttr_AGE:
  "ObjectGetAttr 1 lp64 ex_world ex_obj 1 = Some (ex_world\<lparr>types := ex_layout\<rparr>, 4104, 2)"
  by code_simp

lemma ex_GetAttr_ACTIVE:
  "ObjectGetAttr 1 lp64 ex_world ex_obj 2 = Some (ex_world\<lparr>types := ex_layout\<rparr>, 4108, 3)"
  by code_simp

theorem null_attribute_reads_as_no_value_witness:
  "deref (types ex_world) (obj_typinf ex_obj) = Some ex_PERSON \<and>
   get_ind ex_obj 2 = Some OCI_IND_NULL \<and>
   attr_scan (cols ex_PERSON) ''age'' (Some OCI_CDT_NUMERIC) 0 = 1 \<and>
   OCI_OBJECT_GET_VALUE 1 lp64 OCI_CDT_NUMERIC (\<lambda>ob i v w. (w, Some 7)) ex_world (Some ex_obj)
      (Some ''age'') = Some (ex_world\<lparr>types := ex_layout\<rparr>, Some ex_obj, None, True) \<and>
   ObjectGetShort 1 lp64 (\<lambda>p s f v m. (True, 5)) (\<lambda>ob a f v w. (w, True, 5)) ex_world
      (Some ex_obj) (Some ''age'') = Some (ex_world\<lparr>types := ex_layout\<rparr>, 0)"
proof -
  have h1: "deref (types ex_world) (obj_typinf ex_obj) = Some ex_PERSON" by code_simp
  have h2: "ObjectGetAttr 1 lp64 ex_world ex_obj (nat 1)
      = Some (ex_world\<lparr>types := ex_layout\<rparr>, 4104, 2)"
    using ex_GetAttr_AGE by simp
  have h3: "get_ind ex_obj 2 = Some OCI_IND_NULL" by code_simp
  have h4: "(0 :: int) \<le> 1" by simp
  have h5: "attr_scan (cols ex_PERSON) ''age'' (Some OCI_CDT_NUMERIC) 0 = 1" by code_simp
  note t = null_attribute_reads_as_no_value [OF h1 h2 h3 h4, where a = "''age''"
      and dt = OCI_CDT_NUMERIC and func = "\<lambda>ob i v w. (w, Some 7)"
      and tnv = "\<lambda>p s f v m. (True, 5)" and nfs = "\<lambda>ob a f v w. (w, True, 5)"]
  from t h5 have
    "OCI_OBJECT_GET_VALUE 1 lp64 OCI_CDT_NUMERIC (\<lambda>ob i v w. (w, Some 7)) ex_world (Some ex_obj)
      (Some ''age'') = Some (ex_world\<lparr>types := ex_layout\<rparr>, Some ex_obj, None, True)"
    and "ObjectGetShort 1 lp64 (\<lambda>p s f v m. (True, 5)) (\<lambda>ob a f v w. (w, True, 5)) ex_world
      (Some ex_obj) (Some ''age'') = Some (ex_world\<lparr>types := ex_layout\<rparr>, 0)"
    by blast+
  with h1 h3 h5 show ?thesis by blast
qed

lemma attr_scan_bound:
  "0 \<le> attr_scan cs a ty i \<Longrightarrow> nat (attr_scan cs a ty i) < i + length cs"
proof (induction cs arbitrary: i)
  case Nil
  then show ?case by simp
next
  case (Cons c cs)
  show ?case
  proof (cases "(ty = None \<or> Some (col_datatype c) = ty) \<and> ostrcasecmp_eq (col_name c) a")
    case True
    then show ?thesis by simp
  next
    case False
    then have e: "attr_scan (c # cs) a ty i = attr_scan cs a ty (Suc i)" by auto
    with Cons.prems have "0 \<le> attr_scan cs a ty (Suc i)" by simp
    from Cons.IH [OF this] show ?thesis unfolding e by simp
  qed
qed

text \<open>
  Claim C10. \<open>ObjectIsNull\<close> reports null for every indicator other than
  \<open>OCI_IND_NOTNULL\<close>, while the getters read the attribute for every indicator other
  than \<open>OCI_IND_NULL\<close>: the getters built with \<open>OCI_OBJECT_GET_VALUE\<close> (any datatype,
  any wrapper function), \<open>ObjectGetBoolean\<close> and \<open>ObjectGetNumberInternal\<close>, on which
  the numeric getters rest. Hence for an indicator that is neither, the attribute is
  null for \<open>ObjectIsNull\<close> and the getter still returns what is stored: the wrapper
  built from the address of the attribute, the stored boolean, the number translated
  from the stored bytes.
\<close>

theorem IsNull_and_getter_disagree:
  assumes "deref (types w) (obj_typinf ob) = Some ti"
    and "attr_scan (cols ti) a None 0 = index"
    and "0 \<le> index"
    and "ObjectGetAttr fuel pf w ob (nat index) = Some (w2, val, ind)"
    and "val \<noteq> 0"
    and "get_ind ob ind = Some iv"
  shows "ObjectIsNull fuel w (Some ob) (Some a) = Some (w, iv \<noteq> OCI_IND_NOTNULL)
       \<and> (attr_scan (cols ti) a (Some dt) 0 = index \<and> nat index < length (objs ob) \<longrightarrow>
            OCI_OBJECT_GET_VALUE fuel pf dt func w (Some ob) (Some a)
              = (if iv \<noteq> OCI_IND_NULL
                 then (case func ob (nat index) val w2 of
                         (w3, r) \<Rightarrow> Some (w3, Some (ob\<lparr>objs := (objs ob)[nat index := r]\<rparr>), r,
                                          r \<noteq> None))
                 else Some (w2, Some ob, None, True)))
       \<and> (attr_scan (cols ti) a (Some OCI_CDT_BOOLEAN) 0 = index \<longrightarrow>
            ObjectGetBoolean fuel pf w (Some ob) (Some a)
              = Some (w2, if iv \<noteq> OCI_IND_NULL then mem_read (memory w2) val else 0, True))
       \<and> (attr_scan (cols ti) a (Some OCI_CDT_NUMERIC) 0 = index \<longrightarrow>
            ObjectGetNumberInternal fuel pf tnv nfs w (Some ob) (Some a) x flag
              = (if iv \<noteq> OCI_IND_NULL
                 then Some (w2, tnv val (col_subtype (cols ti ! nat index)) flag x (memory w2))
                 else Some (w2, False, x)))
       \<and> (iv \<noteq> OCI_IND_NULL \<and> iv \<noteq> OCI_IND_NOTNULL \<longrightarrow>
            ObjectIsNull fuel w (Some ob) (Some a) = Some (w, True) \<and>
            (attr_scan (cols ti) a (Some dt) 0 = index \<and> nat index < length (objs ob) \<longrightarrow>
               OCI_OBJECT_GET_VALUE fuel pf dt func w (Some ob) (Some a)
                 = (case func ob (nat index) val w2 of
                      (w3, r) \<Rightarrow> Some (w3, Some (ob\<lparr>objs := (objs ob)[nat index := r]\<rparr>), r,
                                       r \<noteq> None))) \<and>
            (attr_scan (cols ti) a (Some OCI_CDT_BOOLEAN) 0 = index \<longrightarrow>
               ObjectGetBoolean fuel pf w (Some ob) (Some a)
                 = Some (w2, mem_read (memory w2) val, True)) \<and>
            (attr_scan (cols ti) a (Some OCI_CDT_NUMERIC) 0 = index \<longrightarrow>
               ObjectGetNumberInternal fuel pf tnv nfs w (Some ob) (Some a) x flag
                 = Some (w2, tnv val (col_subtype (cols ti ! nat index)) flag x (memory w2))))"
proof -
  from ObjectGetAttr_frame [OF assms(4)] obtain off where
    off: "ObjectGetIndOffset fuel (types w) (Some (obj_typinf ob)) index = Some off"
    and ind: "ind = idx_ind ob + uint off"
    and sh: "map shape (types w2) = map shape (types w)"
    using assms(3) by auto
  have i1: "ObjectGetAttrIndex w (Some ob) (Some a) None True = Some (w, index)"
    using ObjectGetAttrIndex_scan [OF assms(1), of a None True] assms(2,3) by simp
  have n: "ObjectIsNull fuel w (Some ob) (Some a) = Some (w, iv \<noteq> OCI_IND_NOTNULL)"
    using i1 assms(3,6) off ind by (auto simp: ObjectIsNull_def)
  have m: "OCI_OBJECT_GET_VALUE fuel pf dt func w (Some ob) (Some a)
              = (if iv \<noteq> OCI_IND_NULL
                 then (case func ob (nat index) val w2 of
                         (w3, r) \<Rightarrow> Some (w3, Some (ob\<lparr>objs := (objs ob)[nat index := r]\<rparr>), r,
                                          r \<noteq> None))
                 else Some (w2, Some ob, None, True))"
    if "attr_scan (cols ti) a (Some dt) 0 = index" and "nat index < length (objs ob)"
  proof -
    have "ObjectGetAttrIndex w (Some ob) (Some a) (Some dt) True = Some (w, index)"
      using ObjectGetAttrIndex_scan [OF assms(1), of a "Some dt" True] that(1) assms(3) by simp
    with assms(3,4,5,6) that(2) show ?thesis
      by (auto simp: OCI_OBJECT_GET_VALUE_def split: prod.splits)
  qed
  have b: "ObjectGetBoolean fuel pf w (Some ob) (Some a)
           = Some (w2, if iv \<noteq> OCI_IND_NULL then mem_read (memory w2) val else 0, True)"
    if "attr_scan (cols ti) a (Some OCI_CDT_BOOLEAN) 0 = index"
  proof -
    have "ObjectGetAttrIndex w (Some ob) (Some a) (Some OCI_CDT_BOOLEAN) True = Some (w, index)"
      using ObjectGetAttrIndex_scan [OF assms(1), of a "Some OCI_CDT_BOOLEAN" True] that assms(3)
      by simp
    with assms(3,4,5,6) show ?thesis by (auto simp: ObjectGetBoolean_def)
  qed
  have g: "ObjectGetNumberInternal fuel pf tnv nfs w (Some ob) (Some a) x flag
              = (if iv \<noteq> OCI_IND_NULL
                 then Some (w2, tnv val (col_subtype (cols ti ! nat index)) flag x (memory w2))
                 else Some (w2, False, x))"
    if "attr_scan (cols ti) a (Some OCI_CDT_NUMERIC) 0 = index"
  proof -
    have i: "ObjectGetAttrIndex w (Some ob) (Some a) (Some OCI_CDT_NUMERIC) False = Some (w, index)"
      using ObjectGetAttrIndex_scan [OF assms(1), of a "Some OCI_CDT_NUMERIC" False] that assms(3)
      by simp
    from shape_deref [OF sh assms(1)] obtain t2 where
      t2: "deref (types w2) (obj_typinf ob) = Some t2" and s2: "shape t2 = shape ti" by blast
    have c2: "cols t2 = cols ti" using s2 by (rule shape_cols)
    have l: "nat index < length (cols ti)"
      using attr_scan_bound [of "cols ti" a "Some OCI_CDT_NUMERIC" 0] that assms(3) by simp
    from i assms(3,4,5,6) t2 c2 l show ?thesis
      by (auto simp: ObjectGetNumberInternal_def split: prod.splits)
  qed
  from n m b g show ?thesis by simp
qed

theorem IsNull_and_getter_disagree_witness:
  "get_ind ex_obj_bad 3 = Some OCI_IND_BADNULL \<and> get_ind ex_obj_bad 2 = Some OCI_IND_BADNULL \<and>
   OCI_IND_BADNULL \<noteq> OCI_IND_NULL \<and> OCI_IND_BADNULL \<noteq> OCI_IND_NOTNULL \<and>
   ObjectIsNull 1 ex_world (Some ex_obj_bad) (Some ''active'') = Some (ex_world, True) \<and>
   ObjectGetBoolean 1 lp64 ex_world (Some ex_obj_bad) (Some ''active'')
     = Some (ex_world\<lparr>types := ex_layout\<rparr>, 1, True) \<and>
   ObjectIsNull 1 ex_world (Some ex_obj_bad) (Some ''age'') = Some (ex_world, True) \<and>
   OCI_OBJECT_GET_VALUE 1 lp64 OCI_CDT_NUMERIC (\<lambda>ob i v w. (w, Some (unat v))) ex_world
      (Some ex_obj_bad) (Some ''age'')
     = Some (ex_world\<lparr>types := ex_layout\<rparr>,
             Some (ex_obj_bad\<lparr>objs := [None, Some 4104, None]\<rparr>), Some 4104, True) \<and>
   ObjectGetNumberInternal 1 lp64 (\<lambda>p s f v m. (True, mem_read m (p + 4)))
      (\<lambda>ob a f v w. (w, False, v)) ex_world (Some ex_obj_bad) (Some ''age'') 0 8
     = Some (ex_world\<lparr>types := ex_layout\<rparr>, True, 1)"
proof -
  have h1: "deref (types ex_world) (obj_typinf ex_obj_bad) = Some ex_PERSON" by code_simp
  have h8: "OCI_IND_BADNULL \<noteq> OCI_IND_NULL \<and> OCI_IND_BADNULL \<noteq> OCI_IND_NOTNULL"
    by (simp add: OCI_IND_BADNULL_def OCI_IND_NULL_def OCI_IND_NOTNULL_def)
  have a2: "attr_scan (cols ex_PERSON) ''active'' None 0 = 2" by code_simp
  have a3: "attr_scan (cols ex_PERSON) ''active'' (Some OCI_CDT_BOOLEAN) 0 = 2" by code_simp
  have a4: "(0 :: int) \<le> 2" by simp
  have a5: "ObjectGetAttr 1 lp64 ex_world ex_obj_bad (nat 2)
      = Some (ex_world\<lparr>types := ex_layout\<rparr>, 4108, 3)"
    by code_simp
  have a6: "(4108 :: 64 word) \<noteq> 0" by simp
  have a7: "get_ind ex_obj_bad 3 = Some OCI_IND_BADNULL" by code_simp
  have ma: "mem_read (memory (ex_world\<lparr>types := ex_layout\<rparr>)) 4108 = 1" by code_simp
  from IsNull_and_getter_disagree [OF h1 a2 a4 a5 a6 a7] h8 a3 ma
  have act: "ObjectIsNull 1 ex_world (Some ex_obj_bad) (Some ''active'') = Some (ex_world, True) \<and>
     ObjectGetBoolean 1 lp64 ex_world (Some ex_obj_bad) (Some ''active'')
       = Some (ex_world\<lparr>types := ex_layout\<rparr>, 1, True)"
    by simp
  have b2: "attr_scan (cols ex_PERSON) ''age'' None 0 = 1" by code_simp
  have b3: "attr_scan (cols ex_PERSON) ''age'' (Some OCI_CDT_NUMERIC) 0 = 1" by code_simp
  have b4: "(0 :: int) \<le> 1" by simp
  have b5: "ObjectGetAttr 1 lp64 ex_world ex_obj_bad (nat 1)
      = Some (ex_world\<lparr>types := ex_layout\<rparr>, 4104, 2)"
    by code_simp
  have b6: "(4104 :: 64 word) \<noteq> 0" by simp
  have b7: "get_ind ex_obj_bad 2 = Some OCI_IND_BADNULL" by code_simp
  have b8: "nat 1 < length (objs ex_obj_bad)" by code_simp
  have mb: "mem_read (memory (ex_world\<lparr>types := ex_layout\<rparr>)) (4104 + 4) = 1" by code_simp
  have ob: "ex_obj_bad\<lparr>objs := (objs ex_obj_bad)[nat 1 := Some (unat (4104 :: 64 word))]\<rparr>
      = ex_obj_bad\<lparr>objs := [None, Some 4104, None]\<rparr>"
    by code_simp
  have u: "unat (4104 :: 64 word) = 4104" by simp
  note t = IsNull_and_getter_disagree [OF h1 b2 b4 b5 b6 b7, where dt = OCI_CDT_NUMERIC
      and func = "\<lambda>ob i v w. (w, Some (unat v))"
      and tnv = "\<lambda>p s f v m. (True, mem_read m (p + 4))"
      and nfs = "\<lambda>ob a f v w. (w, False, v)" and x = 0 and flag = 8]
  from t h8 b3 b8 have age: "ObjectIsNull 1 ex_world (Some ex_obj_bad) (Some ''age'') = Some (ex_world, True) \<and>
     OCI_OBJECT_GET_VALUE 1 lp64 OCI_CDT_NUMERIC (\<lambda>ob i v w. (w, Some (unat v))) ex_world
        (Some ex_obj_bad) (Some ''age'')
       = Some (ex_world\<lparr>types := ex_layout\<rparr>,
               Some (ex_obj_bad\<lparr>objs := [None, Some 4104, None]\<rparr>), Some 4104, True) \<and>
     ObjectGetNumberInternal 1 lp64 (\<lambda>p s f v m. (True, mem_read m (p + 4)))
        (\<lambda>ob a f v w. (w, False, v)) ex_world (Some ex_obj_bad) (Some ''age'') 0 8
       = Some (ex_world\<lparr>types := ex_layout\<rparr>, True, 1)"
    using ob u mb by simp
  from a7 b7 h8 act age show ?thesis by blast
qed

lemma OCI_EXEC_shape:
  "OCI_EXEC st f w ob = ((w', ob'), ok) \<Longrightarrow> types w' = types w"
  by (auto simp: OCI_EXEC_def raise_def Let_def split: if_splits prod.splits)

lemma helper_call_shape:
  "helper_call f w = (w', ok) \<Longrightarrow> types w' = types w"
  by (auto simp: helper_call_def Let_def split: prod.splits)

lemma raise_types [simp]: "types (raise e w) = types w"
  by (simp add: raise_def)



text \<open>
  Claim C8. For a final declared type, and for an absent instance handle,
  \<open>ObjectGetRealTypeInfo\<close> returns the declared type and leaves the world as it is: no
  native call is made. A call that logs a native call was made for a type of kind
  \<open>OCI_TIF_TYPE\<close> that is not final, with a non-null handle.
\<close>

theorem final_type_or_absent_handle_fast_path:
  assumes "deref (types w) p = Some ti"
  shows "(is_final ti \<or> object = 0 \<longrightarrow>
            ObjectGetRealTypeInfo rt w (Some p) object = Some (w, Some p))
       \<and> (\<forall>w' r. ObjectGetRealTypeInfo rt w (Some p) object = Some (w', r) \<and>
                 native_calls w' \<noteq> native_calls w \<longrightarrow>
                 object \<noteq> 0 \<and> tif_type ti = OCI_TIF_TYPE \<and> \<not> is_final ti)"
proof (intro conjI impI allI)
  assume "is_final ti \<or> object = 0"
  with assms show "ObjectGetRealTypeInfo rt w (Some p) object = Some (w, Some p)"
    by (auto simp: ObjectGetRealTypeInfo_def)
next
  fix w' r
  assume h: "ObjectGetRealTypeInfo rt w (Some p) object = Some (w', r) \<and>
                 native_calls w' \<noteq> native_calls w"
  show "object \<noteq> 0" "tif_type ti = OCI_TIF_TYPE" "\<not> is_final ti"
    using h assms by (auto simp: ObjectGetRealTypeInfo_def split: if_splits)
qed

theorem final_type_or_absent_handle_fast_path_witness:
  "deref (types ex_hier_world) 1 = Some ex_DERIVED \<and> is_final ex_DERIVED \<and>
   ObjectGetRealTypeInfo ex_runtime ex_hier_world (Some 1) 4096 = Some (ex_hier_world, Some 1) \<and>
   deref (types ex_hier_world) 0 = Some ex_BASE \<and>
   ObjectGetRealTypeInfo ex_runtime ex_hier_world (Some 0) 0 = Some (ex_hier_world, Some 0) \<and>
   ObjectGetRealTypeInfo ex_runtime ex_hier_world (Some 0) 4096
     = Some (ex_hier_world\<lparr>native_calls := [''MemObjectNew'', ''OCIObjectGetTypeRef'',
          ''OCITypeByRef'', ''ListExists'', ''MemObjectFree'']\<rparr>, Some 0) \<and>
   (4096 :: 64 word) \<noteq> 0 \<and> tif_type ex_BASE = OCI_TIF_TYPE \<and> \<not> is_final ex_BASE"
proof -
  have h1: "deref (types ex_hier_world) 1 = Some ex_DERIVED" by code_simp
  have h2: "is_final ex_DERIVED" by code_simp
  have h3: "deref (types ex_hier_world) 0 = Some ex_BASE" by code_simp
  have a: "ObjectGetRealTypeInfo ex_runtime ex_hier_world (Some 1) 4096
      = Some (ex_hier_world, Some 1)"
    using final_type_or_absent_handle_fast_path [OF h1, of 4096 ex_runtime] h2 by blast
  have b: "ObjectGetRealTypeInfo ex_runtime ex_hier_world (Some 0) 0
      = Some (ex_hier_world, Some 0)"
    using final_type_or_absent_handle_fast_path [OF h3, of 0 ex_runtime] by blast
  have c: "ObjectGetRealTypeInfo ex_runtime ex_hier_world (Some 0) 4096
     = Some (ex_hier_world\<lparr>native_calls := [''MemObjectNew'', ''OCIObjectGetTypeRef'',
          ''OCITypeByRef'', ''ListExists'', ''MemObjectFree'']\<rparr>, Some 0)"
    by code_simp
  have n: "native_calls (ex_hier_world\<lparr>native_calls := [''MemObjectNew'', ''OCIObjectGetTypeRef'',
          ''OCITypeByRef'', ''ListExists'', ''MemObjectFree'']\<rparr>) \<noteq> native_calls ex_hier_world"
    by (simp add: ex_hier_world_def)
  from final_type_or_absent_handle_fast_path [OF h3, of 4096 ex_runtime, THEN conjunct2,
      rule_format, OF conjI, OF c n]
  have d: "(4096 :: 64 word) \<noteq> 0 \<and> tif_type ex_BASE = OCI_TIF_TYPE \<and> \<not> is_final ex_BASE" .
  from h1 h2 h3 a b c d show ?thesis by blast
qed

section \<open>The steps of the layout keep a relation between two stores\<close>

lemma rel_ok_same:
  assumes "rel_ok R p t0 i0" and "R X Y"
  obtains t where "deref X p = Some t" and "deref Y p = Some t" and "shape t = shape t0"
  using assms unfolding rel_ok_def by metis

lemma rel_ok_update:
  assumes "rel_ok R p t0 i0" and "R X Y" and "shape t' = shape t0"
  shows "R (X[p := t']) (Y[p := t'])"
  using assms unfolding rel_ok_def by blast

lemma rel_callD:
  assumes "rel_call R K call1 call2" and "R X Y" and "c \<in> K"
    and "call1 X c out = Some (X1, sz, al)"
  obtains Y1 where "call2 Y c out = Some (Y1, sz, al)" and "R X1 Y1"
  using assms unfolding rel_call_def by blast

lemma ObjectGetAttrInfo_rel:
  assumes ok: "rel_ok R p t0 i0" and rc: "rel_call R K call1 call2"
    and K: "col_args i0 t0 \<subseteq> K" and i: "i0 \<le> i" and R: "R X Y"
    and run: "ObjectGetAttrInfo call1 pf X p i out = Some (X1, sz, al)"
  shows "\<exists>Y1. ObjectGetAttrInfo call2 pf Y p i out = Some (Y1, sz, al) \<and> R X1 Y1"
proof -
  from rel_ok_same [OF ok R] obtain t where tX: "deref X p = Some t"
    and tY: "deref Y p = Some t" and sh: "shape t = shape t0" by blast
  have c: "cols t = cols t0" using sh by (rule shape_cols)
  have n: "nb_cols t = nb_cols t0" using sh by (rule shape_nb_cols)
  show ?thesis
  proof (cases "nb_cols t \<le> i")
    case True
    with run tX tY R show ?thesis by (simp add: ObjectGetAttrInfo_def)
  next
    case False
    let ?c = "cols t ! i"
    from run tX False obtain Xa ta where
      a: "(if col_datatype ?c = OCI_CDT_OBJECT then call1 X (col_typinf ?c) out
           else Some (X, attr_size_align pf ?c)) = Some (Xa, sz, al)"
      and ta: "deref Xa p = Some ta"
      and X1: "X1 = (if align ta < al then Xa[p := ta\<lparr>align := al\<rparr>] else Xa)"
      unfolding ObjectGetAttrInfo_def
      by (simp split: option.splits prod.splits)
    have "\<exists>Ya. (if col_datatype ?c = OCI_CDT_OBJECT then call2 Y (col_typinf ?c) out
           else Some (Y, attr_size_align pf ?c)) = Some (Ya, sz, al) \<and> R Xa Ya"
    proof (cases "col_datatype ?c = OCI_CDT_OBJECT")
      case True
      with False i c n have "col_typinf ?c \<in> col_args i0 t0"
        unfolding col_args_def by auto
      with K have k: "col_typinf ?c \<in> K" by blast
      from a True have "call1 X (col_typinf ?c) out = Some (Xa, sz, al)" by simp
      from rel_callD [OF rc R k this] True show ?thesis by auto
    next
      case False
      with a R show ?thesis by auto
    qed
    then obtain Ya where b: "(if col_datatype ?c = OCI_CDT_OBJECT
           then call2 Y (col_typinf ?c) out
           else Some (Y, attr_size_align pf ?c)) = Some (Ya, sz, al)"
      and Ra: "R Xa Ya" by blast
    from rel_ok_same [OF ok Ra] ta obtain tha: "deref Ya p = Some ta"
      and sha: "shape ta = shape t0" by auto
    let ?Y1 = "if align ta < al then Ya[p := ta\<lparr>align := al\<rparr>] else Ya"
    have "ObjectGetAttrInfo call2 pf Y p i out = Some (?Y1, sz, al)"
      using tY False b tha unfolding ObjectGetAttrInfo_def by simp
    moreover have "R X1 ?Y1"
      unfolding X1 using Ra rel_ok_update [OF ok Ra, of "ta\<lparr>align := al\<rparr>"] sha by simp
    ultimately show ?thesis by blast
  qed
qed

lemma set_offset_rel:
  assumes ok: "rel_ok R p t0 i0" and R: "R X Y" and run: "set_offset X p i v = Some X1"
  shows "\<exists>Y1. set_offset Y p i v = Some Y1 \<and> R X1 Y1"
proof -
  from rel_ok_same [OF ok R] obtain t where tX: "deref X p = Some t"
    and tY: "deref Y p = Some t" and sh: "shape t = shape t0" by blast
  from run tX have l: "i < length (offsets t)"
    and X1: "X1 = X[p := t\<lparr>offsets := (offsets t)[i := v]\<rparr>]"
    unfolding set_offset_def by (auto split: if_splits)
  have "set_offset Y p i v = Some (Y[p := t\<lparr>offsets := (offsets t)[i := v]\<rparr>])"
    using tY l unfolding set_offset_def by simp
  moreover have "R X1 (Y[p := t\<lparr>offsets := (offsets t)[i := v]\<rparr>])"
    unfolding X1 using rel_ok_update [OF ok R, of "t\<lparr>offsets := (offsets t)[i := v]\<rparr>"] sh
    by simp
  ultimately show ?thesis by blast
qed

lemma copy_offsets_rel:
  assumes ok: "rel_ok R p t0 i0" and par: "parent_type t0 = Some pp"
  shows "R X Y \<Longrightarrow> copy_offsets X p pp is = Some X1 \<Longrightarrow>
         \<exists>Y1. copy_offsets Y p pp is = Some Y1 \<and> R X1 Y1"
proof (induction "is" arbitrary: X Y)
  case Nil
  then show ?case by simp
next
  case (Cons i "is")
  from ok par Cons.prems(1) have e: "deref Y pp = deref X pp"
    unfolding rel_ok_def by blast
  from Cons.prems(2) obtain par' Xa where p': "deref X pp = Some par'"
    and l: "i < length (offsets par')"
    and a: "set_offset X p i (offsets par' ! i) = Some Xa"
    and r: "copy_offsets Xa p pp is = Some X1"
    by (auto split: option.splits if_splits)
  from set_offset_rel [OF ok Cons.prems(1) a] obtain Ya where
    b: "set_offset Y p i (offsets par' ! i) = Some Ya" and Ra: "R Xa Ya" by blast
  from Cons.IH [OF Ra r] obtain Y1 where "copy_offsets Ya p pp is = Some Y1" and "R X1 Y1"
    by blast
  with e p' l b show ?case by auto
qed

lemma layout_loop_Cons:
  "layout_loop call pf p (i # is) (S, sz, sz1, sz2, algn) =
     (case loop_head call pf p i S sz sz1 sz2 algn of
        None \<Rightarrow> None
      | Some (Sa, sz1', align_a) \<Rightarrow>
          (case ObjectGetAttrInfo call pf Sa p (i + 1) (sz2, align_a) of
             None \<Rightarrow> None
           | Some (Sb, sz2', align_b) \<Rightarrow>
               layout_loop call pf p is
                 (Sb, ROUNDUP pf (sz + sz1') align_b, sz1', sz2', align_b)))"
  by (simp add: loop_head_def)

lemma layout_loop_ConsE:
  assumes "layout_loop call pf p (i # is) (S, sz, sz1, sz2, algn) = Some res"
  obtains Sa sz1' align_a Sb sz2' align_b where
    "loop_head call pf p i S sz sz1 sz2 algn = Some (Sa, sz1', align_a)"
    and "ObjectGetAttrInfo call pf Sa p (i + 1) (sz2, align_a) = Some (Sb, sz2', align_b)"
    and "layout_loop call pf p is
           (Sb, ROUNDUP pf (sz + sz1') align_b, sz1', sz2', align_b) = Some res"
  using assms unfolding layout_loop_Cons
  by (auto split: option.splits prod.splits)

lemma layout_loop_ConsI:
  assumes "loop_head call pf p i S sz sz1 sz2 algn = Some (Sa, sz1', align_a)"
    and "ObjectGetAttrInfo call pf Sa p (i + 1) (sz2, align_a) = Some (Sb, sz2', align_b)"
    and "layout_loop call pf p is
           (Sb, ROUNDUP pf (sz + sz1') align_b, sz1', sz2', align_b) = Some res"
  shows "layout_loop call pf p (i # is) (S, sz, sz1, sz2, algn) = Some res"
  using assms unfolding layout_loop_Cons by simp

lemma loop_head_rel:
  assumes ok: "rel_ok R p t0 i0" and rc: "rel_call R K call1 call2"
    and K: "col_args i0 t0 \<subseteq> K" and i: "i0 \<le> i" and R: "R X Y"
    and run: "loop_head call1 pf p i X sz sz1 sz2 algn = Some (X1, s, a)"
  shows "\<exists>Y1. loop_head call2 pf p i Y sz sz1 sz2 algn = Some (Y1, s, a) \<and> R X1 Y1"
proof (cases "0 < i")
  case True
  with run have "set_offset X p i (ucast sz) = Some X1" and "s = sz2" and "a = algn"
    unfolding loop_head_def by (auto split: option.splits)
  with set_offset_rel [OF ok R this(1)] True show ?thesis
    unfolding loop_head_def by auto
next
  case False
  with run obtain Xa where
    a: "ObjectGetAttrInfo call1 pf X p i (sz1, algn) = Some (Xa, s, a)"
    and b: "set_offset Xa p i 0 = Some X1"
    unfolding loop_head_def by (auto split: option.splits)
  from ObjectGetAttrInfo_rel [OF ok rc K i R a] obtain Ya where
    a': "ObjectGetAttrInfo call2 pf Y p i (sz1, algn) = Some (Ya, s, a)" and Ra: "R Xa Ya"
    by blast
  from set_offset_rel [OF ok Ra b] obtain Y1 where "set_offset Ya p i 0 = Some Y1"
    and "R X1 Y1" by blast
  with a' False show ?thesis unfolding loop_head_def by auto
qed

lemma layout_loop_rel:
  assumes ok: "rel_ok R p t0 i0" and rc: "rel_call R K call1 call2"
    and K: "col_args i0 t0 \<subseteq> K"
  shows "\<forall>i \<in> set is. i0 \<le> i \<Longrightarrow> R X Y \<Longrightarrow>
         layout_loop call1 pf p is (X, st) = Some (X1, st1) \<Longrightarrow>
         \<exists>Y1. layout_loop call2 pf p is (Y, st) = Some (Y1, st1) \<and> R X1 Y1"
proof (induction "is" arbitrary: X Y st)
  case Nil
  then show ?case by simp
next
  case (Cons i "is")
  obtain sz sz1 sz2 algn where st: "st = (sz, sz1, sz2, algn)" by (cases st) auto
  from Cons.prems(1) have i: "i0 \<le> i" and i1: "i0 \<le> i + 1"
    and rest: "\<forall>i \<in> set is. i0 \<le> i" by auto
  from Cons.prems(3) [unfolded st] obtain Xa sz1' align_a Xb sz2' align_b where
    h: "loop_head call1 pf p i X sz sz1 sz2 algn = Some (Xa, sz1', align_a)"
    and n: "ObjectGetAttrInfo call1 pf Xa p (i + 1) (sz2, align_a) = Some (Xb, sz2', align_b)"
    and r: "layout_loop call1 pf p is
              (Xb, ROUNDUP pf (sz + sz1') align_b, sz1', sz2', align_b) = Some (X1, st1)"
    by (rule layout_loop_ConsE)
  from loop_head_rel [OF ok rc K i Cons.prems(2) h] obtain Ya where
    h': "loop_head call2 pf p i Y sz sz1 sz2 algn = Some (Ya, sz1', align_a)"
    and Ra: "R Xa Ya" by blast
  from ObjectGetAttrInfo_rel [OF ok rc K i1 Ra n] obtain Yb where
    n': "ObjectGetAttrInfo call2 pf Ya p (i + 1) (sz2, align_a) = Some (Yb, sz2', align_b)"
    and Rb: "R Xb Yb" by blast
  from Cons.IH [OF rest Rb r] obtain Y1 where
    r': "layout_loop call2 pf p is
              (Yb, ROUNDUP pf (sz + sz1') align_b, sz1', sz2', align_b) = Some (Y1, st1)"
    and R1: "R X1 Y1" by blast
  from layout_loop_ConsI [OF h' n' r'] R1 show ?case unfolding st by blast
qed

text \<open>The part before the loop, taken apart.\<close>

lemma layout_parent_NoneE:
  assumes "layout_parent call pf S p ti = Some res" and "parent_type ti = None"
  shows "res = (S, 0, 0, 0, 0)"
  using assms unfolding layout_parent_def by simp

lemma layout_parent_SomeE:
  assumes "layout_parent call pf S p ti = Some res" and "parent_type ti = Some pp"
  obtains S1 sz algn par S2 where
    "call S (Some pp) (0, 0) = Some (S1, sz, algn)"
    and "deref S1 pp = Some par"
    and "copy_offsets S1 p pp [0..<nb_cols par] = Some S2"
    and "nb_cols par < nb_cols ti \<longrightarrow>
           (\<exists>t2 S3 sz2 next_align. deref S2 p = Some t2 \<and>
              ObjectGetAttrInfo call pf (S2[p := t2\<lparr>align := algn\<rparr>]) p (nb_cols par) (0, 0)
                = Some (S3, sz2, next_align) \<and>
              res = (S3, ROUNDUP pf sz next_align, sz2, algn, nb_cols par))"
    and "\<not> nb_cols par < nb_cols ti \<longrightarrow> res = (S2, sz, 0, algn, nb_cols par)"
  using assms unfolding layout_parent_def
  by (auto split: option.splits prod.splits if_splits)

lemma layout_parent_first:
  assumes "layout_parent call pf S p ti = Some (S', sz, sz2, algn, j0)"
    and "parent_type ti = Some pp"
  shows "\<exists>S1 sz0 algn0 par. call S (Some pp) (0, 0) = Some (S1, sz0, algn0) \<and>
           deref S1 pp = Some par \<and> j0 = nb_cols par"
  using assms unfolding layout_parent_def
  by (auto split: option.splits prod.splits if_splits)

lemma layout_parent_rel:
  assumes ok: "rel_ok R p t0 i0" and rc: "rel_call R K call1 call2"
    and K: "col_args i0 t0 \<subseteq> K"
    and Kp: "\<And>pp. parent_type t0 = Some pp \<Longrightarrow> Some pp \<in> K"
    and R: "R X Y" and ti: "shape ti = shape t0"
    and run: "layout_parent call1 pf X p ti = Some (X1, res)"
  shows "\<exists>Y1. layout_parent call2 pf Y p ti = Some (Y1, res) \<and> R X1 Y1"
proof (cases "parent_type t0")
  case None
  then have "parent_type ti = None" using shape_parent [OF ti] by simp
  with run R show ?thesis unfolding layout_parent_def by simp
next
  case (Some pp)
  then have pt: "parent_type ti = Some pp" using shape_parent [OF ti] by simp
  from layout_parent_SomeE [OF run pt] obtain Xa sz algn par Xb where
    c: "call1 X (Some pp) (0, 0) = Some (Xa, sz, algn)"
    and d: "deref Xa pp = Some par"
    and cp: "copy_offsets Xa p pp [0..<nb_cols par] = Some Xb"
    and own: "nb_cols par < nb_cols ti \<longrightarrow>
           (\<exists>t2 S3 sz2 next_align. deref Xb p = Some t2 \<and>
              ObjectGetAttrInfo call1 pf (Xb[p := t2\<lparr>align := algn\<rparr>]) p (nb_cols par) (0, 0)
                = Some (S3, sz2, next_align) \<and>
              (X1, res) = (S3, ROUNDUP pf sz next_align, sz2, algn, nb_cols par))"
    and noown: "\<not> nb_cols par < nb_cols ti \<longrightarrow> (X1, res) = (Xb, sz, 0, algn, nb_cols par)"
    by blast
  from rel_callD [OF rc R Kp [OF Some] c] obtain Ya where
    c': "call2 Y (Some pp) (0, 0) = Some (Ya, sz, algn)" and Ra: "R Xa Ya" by blast
  from ok Some Ra d have d': "deref Ya pp = Some par" and np: "nb_cols par = i0"
    unfolding rel_ok_def by auto
  from copy_offsets_rel [OF ok Some Ra cp] obtain Yb where
    cp': "copy_offsets Ya p pp [0..<nb_cols par] = Some Yb" and Rb: "R Xb Yb" by blast
  show ?thesis
  proof (cases "nb_cols par < nb_cols ti")
    case False
    with noown have "X1 = Xb" and "res = (sz, 0, algn, nb_cols par)" by auto
    with c' d' cp' False Rb pt show ?thesis unfolding layout_parent_def by simp
  next
    case True
    with own obtain t2 sz2 next_align where t2: "deref Xb p = Some t2"
      and a: "ObjectGetAttrInfo call1 pf (Xb[p := t2\<lparr>align := algn\<rparr>]) p (nb_cols par) (0, 0)
                = Some (X1, sz2, next_align)"
      and res: "res = (ROUNDUP pf sz next_align, sz2, algn, nb_cols par)"
      by auto
    from rel_ok_same [OF ok Rb] t2 have t2': "deref Yb p = Some t2"
      and s2: "shape t2 = shape t0" by auto
    have Rc: "R (Xb[p := t2\<lparr>align := algn\<rparr>]) (Yb[p := t2\<lparr>align := algn\<rparr>])"
      using rel_ok_update [OF ok Rb, of "t2\<lparr>align := algn\<rparr>"] s2 by simp
    have "i0 \<le> nb_cols par" using np by simp
    from ObjectGetAttrInfo_rel [OF ok rc K this Rc a] obtain Y1 where
      a': "ObjectGetAttrInfo call2 pf (Yb[p := t2\<lparr>align := algn\<rparr>]) p (nb_cols par) (0, 0)
                = Some (Y1, sz2, next_align)" and R1: "R X1 Y1" by blast
    from c' d' cp' True t2' a' res pt have
      "layout_parent call2 pf Y p ti = Some (Y1, res)"
      unfolding layout_parent_def by simp
    with R1 show ?thesis by blast
  qed
qed

lemma compute_layout_rel:
  assumes ok: "rel_ok R p t0 i0" and rc: "rel_call R K call1 call2"
    and K: "col_args i0 t0 \<subseteq> K"
    and Kp: "\<And>pp. parent_type t0 = Some pp \<Longrightarrow> Some pp \<in> K"
    and root: "parent_type t0 = None \<Longrightarrow> i0 = 0"
    and R: "R X Y"
    and run: "compute_layout call1 pf X p = Some X1"
  shows "\<exists>Y1. compute_layout call2 pf Y p = Some Y1 \<and> R X1 Y1"
proof -
  from rel_ok_same [OF ok R] obtain t where tX: "deref X p = Some t"
    and tY: "deref Y p = Some t" and sh: "shape t = shape t0" by blast
  from run tX obtain Xa sz sz2 algn j0 Xb sz' sz1' sz2' align' tb where
    a: "layout_parent call1 pf X p t = Some (Xa, sz, sz2, algn, j0)"
    and b: "layout_loop call1 pf p [j0..<nb_cols t] (Xa, sz, 0, sz2, algn)
              = Some (Xb, sz', sz1', sz2', align')"
    and tb: "deref Xb p = Some tb"
    and X1: "X1 = Xb[p := tb\<lparr>struct_size := ROUNDUP pf (sz' + sz2') (align tb)\<rparr>]"
    unfolding compute_layout_def by (auto split: option.splits prod.splits)
  from layout_parent_rel [OF ok rc K Kp R sh a] obtain Ya where
    a': "layout_parent call2 pf Y p t = Some (Ya, sz, sz2, algn, j0)" and Ra: "R Xa Ya"
    by blast
  have j0: "j0 = i0"
  proof (cases "parent_type t0")
    case None
    then have "parent_type t = None" using shape_parent [OF sh] by simp
    from layout_parent_NoneE [OF a this] root [OF None] show ?thesis by simp
  next
    case (Some pp)
    then have pt: "parent_type t = Some pp" using shape_parent [OF sh] by simp
    from layout_parent_first [OF a pt] obtain S1 sz0 algn0 par where
      c: "call1 X (Some pp) (0, 0) = Some (S1, sz0, algn0)"
      and d: "deref S1 pp = Some par"
      and j: "j0 = nb_cols par"
      by blast
    from rel_callD [OF rc R Kp [OF Some] c] obtain Y1 where "R S1 Y1" by blast
    with ok Some d have "nb_cols par = i0" unfolding rel_ok_def by blast
    with j show ?thesis by simp
  qed
  have "\<forall>i \<in> set [j0..<nb_cols t]. i0 \<le> i" using j0 by simp
  from layout_loop_rel [OF ok rc K this Ra b] obtain Yb where
    b': "layout_loop call2 pf p [j0..<nb_cols t] (Ya, sz, 0, sz2, algn)
              = Some (Yb, sz', sz1', sz2', align')" and Rb: "R Xb Yb" by blast
  from rel_ok_same [OF ok Rb] tb have tb': "deref Yb p = Some tb"
    and sb: "shape tb = shape t0" by auto
  let ?t = "tb\<lparr>struct_size := ROUNDUP pf (sz' + sz2') (align tb)\<rparr>"
  have "compute_layout call2 pf Y p = Some (Yb[p := ?t])"
    using tY a' b' tb' unfolding compute_layout_def by simp
  moreover have "R X1 (Yb[p := ?t])"
    unfolding X1 using rel_ok_update [OF ok Rb, of ?t] sb by simp
  ultimately show ?thesis by blast
qed

section \<open>More fuel changes nothing\<close>

lemma shape_deref_rev:
  assumes "map shape S' = map shape S" and "deref S' p = Some t'"
  shows "\<exists>t. deref S p = Some t \<and> shape t = shape t'"
  using shape_deref [OF assms(1) [symmetric] assms(2)] .

lemma first_own_shape:
  assumes "map shape S' = map shape S"
  shows "first_own S' t = first_own S t"
proof (cases "parent_type t")
  case None
  then show ?thesis by (simp add: first_own_def)
next
  case (Some pp)
  show ?thesis
  proof (cases "deref S pp")
    case None
    then have "length S \<le> pp" by (simp add: deref_None)
    moreover have "length S' = length S" using assms by (metis length_map)
    ultimately have "deref S' pp = None" by (simp add: deref_None)
    with None Some show ?thesis by (simp add: first_own_def)
  next
    case par: (Some par)
    from shape_deref [OF assms par] obtain par' where "deref S' pp = Some par'"
      and "shape par' = shape par" by blast
    with par Some shape_nb_cols [of par' par] show ?thesis by (simp add: first_own_def)
  qed
qed

lemma call_args_shape:
  assumes "map shape S' = map shape S" and "shape t' = shape t"
  shows "call_args S' t' = call_args S t"
proof -
  have "cols t' = cols t" using assms(2) by (rule shape_cols)
  moreover have "parent_type t' = parent_type t" using assms(2) by (rule shape_parent)
  moreover have "first_own S' t' = first_own S t"
    using first_own_shape [OF assms(1), of t'] calculation
    by (simp add: first_own_def)
  ultimately show ?thesis by (simp add: call_args_def col_args_def nb_cols_def)
qed

lemma first_own_parent:
  assumes "parent_type t = Some pp" and "map shape X = map shape S"
    and "deref X pp = Some par"
  shows "nb_cols par = first_own S t"
proof -
  from shape_deref_rev [OF assms(2) assms(3)] obtain par0 where
    "deref S pp = Some par0" and "shape par0 = shape par" by blast
  with assms(1) shape_nb_cols [of par0 par] show ?thesis by (simp add: first_own_def)
qed

lemma ObjectGetStructSize_Some_zero:
  assumes "deref S p = Some t" and "struct_size t = 0"
  shows "ObjectGetStructSize (Suc n) pf S (Some p) out =
           (case compute_layout (ObjectGetStructSize n pf) pf S p of
              None \<Rightarrow> None
            | Some S' \<Rightarrow>
                (case deref S' p of
                   None \<Rightarrow> None
                 | Some t' \<Rightarrow> Some (S', struct_size t', align t')))"
  using assms by simp

lemma ObjectGetStructSize_cached:
  assumes "deref S p = Some t" and "struct_size t \<noteq> 0"
  shows "ObjectGetStructSize (Suc n) pf S (Some p) out = Some (S, struct_size t, align t)"
  using assms by simp

lemma ObjectGetStructSize_None [simp]:
  "ObjectGetStructSize n pf S None out = Some (S, out)"
  by (cases n) simp_all

lemma ObjectGetStructSize_fuel:
  assumes "ObjectGetStructSize n pf S (Some p) out = Some res"
  obtains n' t where "n = Suc n'" and "deref S p = Some t"
  using assms by (cases n) (auto split: option.splits)

lemma compute_layout_deref:
  assumes "compute_layout call pf S p = Some S'"
  shows "\<exists>t'. deref S' p = Some t'"
  using assms unfolding compute_layout_def
  by (auto simp: deref_update deref_Some split: option.splits prod.splits)

lemma ObjectGetStructSize_mono_Suc:
  "ObjectGetStructSize n pf X c out = Some res \<Longrightarrow>
   ObjectGetStructSize (Suc n) pf X c out = Some res"
proof (induction n arbitrary: X c out res)
  case 0
  then show ?case by (cases c) simp_all
next
  case (Suc n)
  show ?case
  proof (cases c)
    case None
    with Suc.prems show ?thesis by simp
  next
    case (Some p)
    from Suc.prems Some obtain t where t: "deref X p = Some t"
      by (auto split: option.splits)
    show ?thesis
    proof (cases "struct_size t = 0")
      case False
      with Suc.prems Some t show ?thesis by simp
    next
      case True
      from Suc.prems Some t True obtain X1 where
        cl: "compute_layout (ObjectGetStructSize n pf) pf X p = Some X1"
        by (auto split: option.splits)
      define R where "R = (\<lambda>A B :: type_store. B = A \<and> map shape A = map shape X)"
      have ok: "rel_ok R p t (first_own X t)"
        unfolding rel_ok_def
      proof (intro conjI allI impI)
        fix A B assume "R A B"
        then show "deref B p = deref A p" by (simp add: R_def)
      next
        fix A B assume "R A B"
        then have "map shape A = map shape X" by (simp add: R_def)
        from shape_deref [OF this t] show "\<exists>t'. deref A p = Some t' \<and> shape t' = shape t" .
      next
        fix A B t' assume r: "R A B" and s: "shape t' = shape t"
        then have m: "map shape A = map shape X" and e: "B = A" by (simp_all add: R_def)
        from shape_deref [OF m t] obtain ta where "deref A p = Some ta"
          and "shape ta = shape t" by blast
        with s have "map shape (A[p := t']) = map shape A" by (simp add: shape_update)
        with m e show "R (A[p := t']) (B[p := t'])" by (simp add: R_def)
      next
        fix pp A B assume "parent_type t = Some pp" and "R A B"
        then show "deref B pp = deref A pp" by (simp add: R_def)
      next
        fix pp A B par assume "parent_type t = Some pp" and "R A B"
          and "deref A pp = Some par"
        then show "nb_cols par = first_own X t"
          using first_own_parent [of t pp A X par] by (simp add: R_def)
      qed
      have rc: "rel_call R UNIV (ObjectGetStructSize n pf) (ObjectGetStructSize (Suc n) pf)"
        unfolding rel_call_def
      proof (intro allI impI)
        fix A B c out A1 sz al
        assume r: "R A B" and run: "ObjectGetStructSize n pf A c out = Some (A1, sz, al)"
        from Suc.IH [OF run] r have
          "ObjectGetStructSize (Suc n) pf B c out = Some (A1, sz, al)" by (simp add: R_def)
        moreover have "R A1 A1"
          using ObjectGetStructSize_shape [OF run] r by (simp add: R_def)
        ultimately show "\<exists>B1. ObjectGetStructSize (Suc n) pf B c out = Some (B1, sz, al) \<and>
                           R A1 B1"
          by blast
      qed
      have "R X X" by (simp add: R_def)
      from compute_layout_rel [OF ok rc _ _ _ this cl]
      obtain Y1 where "compute_layout (ObjectGetStructSize (Suc n) pf) pf X p = Some Y1"
        and "R X1 Y1" by (auto simp: first_own_def)
      then have "compute_layout (ObjectGetStructSize (Suc n) pf) pf X p = Some X1"
        by (simp add: R_def)
      with Suc.prems Some t True cl show ?thesis by simp
    qed
  qed
qed

lemma ObjectGetStructSize_mono:
  assumes "ObjectGetStructSize n pf X c out = Some res" and "n \<le> m"
  shows "ObjectGetStructSize m pf X c out = Some res"
  using assms(2, 1)
  by (induction rule: dec_induct) (auto dest: ObjectGetStructSize_mono_Suc)

section \<open>Settled descriptors depend on their own part of the store\<close>

lemma update_deref_same: "deref S p = Some t \<Longrightarrow> S[p := t] = S"
  by (cases "p < length S") (auto simp: deref_def)

lemma ranked_shape:
  assumes "map shape S' = map shape S" and "ranked r S"
  shows "ranked r S'"
  unfolding ranked_def
proof (intro allI impI)
  fix a t' assume "deref S' a = Some t'"
  from shape_deref_rev [OF assms(1) this] obtain t where t: "deref S a = Some t"
    and s: "shape t = shape t'" by blast
  have "cols t = cols t'" and "parent_type t = parent_type t'"
    using shape_cols [OF s] shape_parent [OF s] by simp_all
  with assms(2) t show "(\<forall>pp. parent_type t' = Some pp \<longrightarrow> r pp < r a) \<and>
        (\<forall>c \<in> set (cols t'). \<forall>q. col_datatype c = OCI_CDT_OBJECT \<longrightarrow>
           col_typinf c = Some q \<longrightarrow> r q < r a)"
    unfolding ranked_def by metis
qed

lemma ranked_args:
  assumes "ranked r S" and "deref S a = Some t" and "Some c \<in> call_args S' t"
  shows "r c < r a"
proof -
  from assms(3) consider "parent_type t = Some c"
    | j where "j < nb_cols t" and "col_datatype (cols t ! j) = OCI_CDT_OBJECT"
        and "col_typinf (cols t ! j) = Some c"
    unfolding call_args_def col_args_def by (auto split: option.splits)
  then show ?thesis
  proof cases
    case 1
    with assms(1, 2) show ?thesis unfolding ranked_def by blast
  next
    case 2
    then have "cols t ! j \<in> set (cols t)" by (simp add: nb_cols_def)
    with assms(1, 2) 2 show ?thesis unfolding ranked_def by blast
  qed
qed

lemma settled_mono:
  assumes "settled pf S k a" and "k \<le> m"
  shows "settled pf S m a"
  using assms unfolding settled_def
  by (meson ObjectGetStructSize_mono)

lemma settledD:
  assumes "settled pf S k a" and "k \<le> m" and "deref S a = Some t"
  shows "ObjectGetStructSize m pf S (Some a) out = Some (S, struct_size t, align t)"
proof -
  from settled_mono [OF assms(1, 2)] obtain t' where a: "deref S a = Some t'"
    and b: "\<And>out. ObjectGetStructSize m pf S (Some a) out = Some (S, struct_size t', align t')"
    unfolding settled_def by blast
  from a assms(3) have "t' = t" by simp
  with b show ?thesis by simp
qed

lemma DoneD:
  assumes "Done pf D S" and "(h, a) \<in> D"
  shows "settled pf S h a"
  using assms unfolding Done_def by blast

lemma Done_args:
  assumes "Done pf D S" and "(h, a) \<in> D" and "deref S a = Some t" and "struct_size t = 0"
    and "Some c \<in> call_args S t"
  shows "\<exists>k < h. (k, c) \<in> D"
  using assms unfolding Done_def by blast

lemma Done_low:
  assumes "Done pf D S" and "ranked r S"
  shows "Done pf {(j, b). (j, b) \<in> D \<and> r b < r a} S"
  unfolding Done_def
proof (intro ballI, clarify, intro conjI allI impI)
  fix h b assume hb: "(h, b) \<in> D" and lt: "r b < r a"
  show "settled pf S h b" using DoneD [OF assms(1) hb] .
  fix t c assume t: "deref S b = Some t" and z: "struct_size t = 0"
    and c: "Some c \<in> call_args S t"
  from Done_args [OF assms(1) hb t z c] obtain k where "k < h" and "(k, c) \<in> D" by blast
  moreover have "r c < r a" using ranked_args [OF assms(2) t c] lt by simp
  ultimately show "\<exists>k<h. (k, c) \<in> {(j, b). (j, b) \<in> D \<and> r b < r a}" by blast
qed

text \<open>
  Being settled depends only on the members of the set: a store that agrees with
  \<open>S\<close> on them has the same settled descriptors.
\<close>

lemma settled_transfer:
  assumes rk: "ranked r S"
  shows "Done pf D S \<Longrightarrow> map shape Y = map shape S \<Longrightarrow>
         (\<forall>b \<in> snd ` D. deref Y b = deref S b) \<Longrightarrow> (h, a) \<in> D \<Longrightarrow> settled pf Y h a"
proof (induction h arbitrary: D Y a rule: less_induct)
  case (less h)
  note dn = less.prems(1) and sh = less.prems(2) and ag = less.prems(3) and ha = less.prems(4)
  from DoneD [OF dn ha] obtain t where t: "deref S a = Some t"
    and run: "\<And>out. ObjectGetStructSize h pf S (Some a) out = Some (S, struct_size t, align t)"
    unfolding settled_def by blast
  from ag ha t have tY: "deref Y a = Some t" by force
  from run [of "(0, 0)"] obtain h' where h: "h = Suc h'"
    by (rule ObjectGetStructSize_fuel)
  show ?case
  proof (cases "struct_size t = 0")
    case False
    with tY h show ?thesis unfolding settled_def by simp
  next
    case True
    from run [of "(0, 0)"] t True h obtain S1 t1 where
      cl: "compute_layout (ObjectGetStructSize h' pf) pf S a = Some S1"
      and "deref S1 a = Some t1" and "S1 = S"
      by (auto split: option.splits)
    then have cl: "compute_layout (ObjectGetStructSize h' pf) pf S a = Some S" by simp
    define L where "L = {(j, b). (j, b) \<in> D \<and> r b < r a}"
    have dl: "Done pf L S" unfolding L_def using Done_low [OF dn rk] .
    define R where "R = (\<lambda>A B. \<exists>m. shape m = shape t \<and> A = S[a := m] \<and> B = Y[a := m])"
    have la: "a < length S" and la': "a < length Y" using t tY by (simp_all add: deref_Some)
    have RS: "\<And>A B. R A B \<Longrightarrow> map shape A = map shape S"
      unfolding R_def using t by (auto simp: shape_update)
    have RY: "\<And>A B. R A B \<Longrightarrow> map shape B = map shape S"
      unfolding R_def using tY sh by (auto simp: shape_update)
    have off: "\<And>A B b. R A B \<Longrightarrow> b \<noteq> a \<Longrightarrow> deref A b = deref S b \<and> deref B b = deref Y b"
      unfolding R_def by (auto simp: deref_update)
    have par: "\<And>pp. parent_type t = Some pp \<Longrightarrow> pp \<noteq> a \<and> deref Y pp = deref S pp"
    proof -
      fix pp assume p: "parent_type t = Some pp"
      then have c: "Some pp \<in> call_args S t" by (simp add: call_args_def)
      from ranked_args [OF rk t c] have "pp \<noteq> a" by auto
      moreover from Done_args [OF dn ha t True c] obtain k where "(k, pp) \<in> D" by blast
      then have "deref Y pp = deref S pp" using ag by force
      ultimately show "pp \<noteq> a \<and> deref Y pp = deref S pp" by simp
    qed
    have ok: "rel_ok R a t (first_own S t)"
      unfolding rel_ok_def
    proof (intro conjI allI impI)
      fix A B assume "R A B"
      then show "deref B a = deref A a"
        unfolding R_def using la la' by (auto simp: deref_update)
    next
      fix A B assume "R A B"
      then show "\<exists>t'. deref A a = Some t' \<and> shape t' = shape t"
        unfolding R_def using la by (auto simp: deref_update)
    next
      fix A B t' assume "R A B" and "shape t' = shape t"
      then show "R (A[a := t']) (B[a := t'])" unfolding R_def by auto
    next
      fix pp A B assume p: "parent_type t = Some pp" and r: "R A B"
      from par [OF p] off [OF r, of pp] show "deref B pp = deref A pp" by simp
    next
      fix pp A B par' assume p: "parent_type t = Some pp" and r: "R A B"
        and d: "deref A pp = Some par'"
      from first_own_parent [OF p RS [OF r] d] show "nb_cols par' = first_own S t" .
    qed
    have rc: "rel_call R (call_args S t) (ObjectGetStructSize h' pf) (ObjectGetStructSize h' pf)"
      unfolding rel_call_def
    proof (intro allI impI)
      fix A B c out A1 sz al
      assume r: "R A B" and c: "c \<in> call_args S t"
        and call: "ObjectGetStructSize h' pf A c out = Some (A1, sz, al)"
      show "\<exists>B1. ObjectGetStructSize h' pf B c out = Some (B1, sz, al) \<and> R A1 B1"
      proof (cases c)
        case None
        with call r show ?thesis by auto
      next
        case (Some q)
        from Done_args [OF dn ha t True c [unfolded Some]] obtain k where k: "k < h"
          and kq: "(k, q) \<in> D" by blast
        have rq: "r q < r a" using ranked_args [OF rk t c [unfolded Some]] .
        then have qa: "q \<noteq> a" by auto
        from kq rq have kL: "(k, q) \<in> L" by (simp add: L_def)
        have nL: "\<And>b. b \<in> snd ` L \<Longrightarrow> b \<noteq> a \<and> b \<in> snd ` D" unfolding L_def by force
        have agA: "\<forall>b \<in> snd ` L. deref A b = deref S b"
          using off [OF r] nL by blast
        have agB: "\<forall>b \<in> snd ` L. deref B b = deref S b"
        proof
          fix b assume "b \<in> snd ` L"
          from nL [OF this] have "b \<noteq> a" and "b \<in> snd ` D" by simp_all
          with off [OF r, of b] ag show "deref B b = deref S b" by simp
        qed
        from kq ag have qY: "deref Y q = deref S q" by force
        from DoneD [OF dn kq] obtain tq where tq: "deref S q = Some tq"
          unfolding settled_def by blast
        have kh: "k \<le> h'" using k h by simp
        have dA: "deref A q = Some tq" using off [OF r qa] tq by simp
        have dB: "deref B q = Some tq" using off [OF r qa] tq qY by simp
        from settledD [OF less.IH [OF k dl RS [OF r] agA kL] kh dA, of out] call Some
        have A1: "A1 = A" and sz: "sz = struct_size tq" and al: "al = align tq" by simp_all
        from settledD [OF less.IH [OF k dl RY [OF r] agB kL] kh dB, of out] Some
        have "ObjectGetStructSize h' pf B c out = Some (B, sz, al)" by (simp add: sz al)
        with r A1 show ?thesis by blast
      qed
    qed
    have K1: "col_args (first_own S t) t \<subseteq> call_args S t" by (auto simp: call_args_def)
    have K2: "\<And>pp. parent_type t = Some pp \<Longrightarrow> Some pp \<in> call_args S t"
      by (simp add: call_args_def)
    have K3: "parent_type t = None \<Longrightarrow> first_own S t = 0" by (simp add: first_own_def)
    have "S[a := t] = S" and "Y[a := t] = Y"
      using t tY by (simp_all add: update_deref_same)
    then have "R S Y" unfolding R_def by (intro exI [of _ t]) simp
    from compute_layout_rel [OF ok rc K1 K2 K3 this cl] obtain Y1 m where
      cl': "compute_layout (ObjectGetStructSize h' pf) pf Y a = Some Y1"
      and m: "S = S[a := m]" and Y1: "Y1 = Y[a := m]" unfolding R_def by blast
    from m la t have "m = t" by (metis deref_Some nth_list_update_eq)
    with Y1 tY have "Y1 = Y" by (simp add: update_deref_same)
    with cl' tY True h show ?thesis unfolding settled_def by simp
  qed
qed

lemma Done_transfer:
  assumes "ranked r S" and "Done pf D S" and "map shape Y = map shape S"
    and "\<forall>b \<in> snd ` D. deref Y b = deref S b"
  shows "Done pf D Y"
  unfolding Done_def
proof (intro ballI, clarify, intro conjI allI impI)
  fix h a assume ha: "(h, a) \<in> D"
  show "settled pf Y h a" using settled_transfer [OF assms ha] .
  fix t c assume t: "deref Y a = Some t" and z: "struct_size t = 0"
    and c: "Some c \<in> call_args Y t"
  from ha assms(4) t have "deref S a = Some t" by force
  moreover have "call_args Y t = call_args S t" using call_args_shape [OF assms(3)] by simp
  ultimately show "\<exists>k<h. (k, c) \<in> D" using Done_args [OF assms(2) ha _ z] c by simp
qed

lemma Done_update:
  assumes "ranked r S" and "Done pf D S" and "p \<notin> snd ` D" and "deref S p = Some t"
    and "shape t' = shape t"
  shows "Done pf D (S[p := t'])"
proof (rule Done_transfer [OF assms(1, 2)])
  show "map shape (S[p := t']) = map shape S" using assms(4, 5) by (rule shape_update)
  show "\<forall>b \<in> snd ` D. deref (S[p := t']) b = deref S b"
    using assms(3) by (auto simp: deref_update)
qed

section \<open>The steps of the layout keep the settled descriptors\<close>

lemma keeps_refl: "keeps pf r p X X"
  by (simp add: keeps_def)

lemma keeps_trans:
  assumes "keeps pf r p X X1" and "keeps pf r p X1 X2"
  shows "keeps pf r p X X2"
  using assms unfolding keeps_def by (metis (no_types, lifting))

lemma keeps_shape: "keeps pf r p X X' \<Longrightarrow> map shape X' = map shape X"
  by (simp add: keeps_def)

lemma keeps_ranked: "keeps pf r p X X' \<Longrightarrow> ranked r X \<Longrightarrow> ranked r X'"
  using ranked_shape keeps_shape by blast

lemma keeps_Done:
  assumes "keeps pf r p X X'" and "Done pf D X" and "p \<notin> snd ` D"
  shows "Done pf D X'" and "\<And>b. b \<in> snd ` D \<Longrightarrow> deref X' b = deref X b"
  using assms unfolding keeps_def by blast+

lemma reached_keeps:
  assumes "keeps pf r p X X'" and "reached pf p n X c"
  shows "reached pf p n X' c"
  using assms unfolding reached_def keeps_def by blast

lemma keeps_update:
  assumes "ranked r X" and "deref X p = Some x" and "shape x' = shape x"
  shows "keeps pf r p X (X[p := x'])"
  unfolding keeps_def
proof (intro conjI allI impI)
  show "map shape (X[p := x']) = map shape X" using assms(2, 3) by (rule shape_update)
next
  fix b assume "\<not> r b \<le> r p"
  then have "b \<noteq> p" by auto
  then show "deref (X[p := x']) b = deref X b" by (simp add: deref_update)
next
  fix D assume "Done pf D X" and "p \<notin> snd ` D"
  then show "Done pf D (X[p := x'])" using Done_update [OF assms(1) _ _ assms(2, 3)] by blast
next
  fix D assume "Done pf D X" and "p \<notin> snd ` D"
  then show "\<forall>b \<in> snd ` D. deref (X[p := x']) b = deref X b"
    by (auto simp: deref_update)
qed

lemma Done_low_reached:
  assumes "Done pf D X" and "ranked r X" and "(k, c) \<in> D" and "k \<le> n" and "r c < r p"
  shows "reached pf p n X c"
  unfolding reached_def
proof (intro exI conjI)
  show "Done pf {(j, b). (j, b) \<in> D \<and> r b < r p} X" using Done_low [OF assms(1, 2)] .
  show "p \<notin> snd ` {(j, b). (j, b) \<in> D \<and> r b < r p}" by auto
  show "(k, c) \<in> {(j, b). (j, b) \<in> D \<and> r b < r p}" using assms(3, 5) by simp
  show "k \<le> n" by fact
qed

lemma keeps_call:
  assumes s: "sound pf r n" and rk: "ranked r X" and lt: "r c < r p"
    and run: "ObjectGetStructSize n pf X (Some c) out = Some (X1, sz, al)"
  shows "keeps pf r p X X1" and "deref X1 p = deref X p" and "reached pf p n X1 c"
    and "\<exists>t. deref X1 c = Some t \<and> sz = struct_size t \<and> al = align t"
proof -
  from s rk run have
    fr: "\<And>b. \<not> r b \<le> r c \<Longrightarrow> deref X1 b = deref X b"
    and ps: "\<And>D. Done pf D X \<Longrightarrow> Done pf D X1 \<and> (\<forall>b \<in> snd ` D. deref X1 b = deref X b)"
    and st: "\<exists>D1 k t. Done pf D1 X1 \<and> k \<le> n \<and> (k, c) \<in> D1 \<and>
           deref X1 c = Some t \<and> sz = struct_size t \<and> al = align t"
    unfolding sound_def by blast+
  have sh: "map shape X1 = map shape X" using run by (rule ObjectGetStructSize_shape)
  show "keeps pf r p X X1"
    unfolding keeps_def using sh fr ps lt by (auto simp: not_le)
  show "deref X1 p = deref X p" using fr [of p] lt by simp
  from st obtain D1 k where "Done pf D1 X1" and "k \<le> n" and "(k, c) \<in> D1" by blast
  then show "reached pf p n X1 c"
    using Done_low_reached [OF _ ranked_shape [OF sh rk] _ _ lt] by blast
  from st show "\<exists>t. deref X1 c = Some t \<and> sz = struct_size t \<and> al = align t" by blast
qed

lemma replay_call:
  assumes rk: "ranked r Z" and re: "reached pf p n Z c"
    and z: "deref Z p = Some z" and y: "shape y = shape z" and t: "deref Z c = Some t"
  shows "ObjectGetStructSize n pf (Z[p := y]) (Some c) out =
           Some (Z[p := y], struct_size t, align t)"
proof -
  from re obtain D k where d: "Done pf D Z" and p: "p \<notin> snd ` D" and kc: "(k, c) \<in> D"
    and k: "k \<le> n" unfolding reached_def by blast
  from kc p have cp: "c \<noteq> p" by force
  have "Done pf D (Z[p := y])" using Done_update [OF rk d p z y] .
  from DoneD [OF this kc] have s: "settled pf (Z[p := y]) k c" .
  have "deref (Z[p := y]) c = Some t" using t cp by (simp add: deref_update)
  from settledD [OF s k this] show ?thesis .
qed

lemma raise_align_simps [simp]:
  "shape (raise_align t al) = shape t"
  "offsets (raise_align t al) = offsets t"
  "struct_size (raise_align t al) = struct_size t"
  "align (raise_align t al) = max (align t) al"
  by (auto simp: raise_align_def max_def)

lemma raise_align_update:
  "deref S p = Some t \<Longrightarrow>
   (if align t < al then S[p := t\<lparr>align := al\<rparr>] else S) = S[p := raise_align t al]"
  by (simp add: raise_align_def update_deref_same)

lemma shape_eqI:
  assumes "shape a = shape b" and "struct_size a = struct_size b" and "align a = align b"
    and "offsets a = offsets b"
  shows "a = b"
  using assms by (cases a; cases b) (simp add: shape_def)

section \<open>The second run follows the first\<close>

lemma nth_update_if: "xs[i := v] ! k = (if k = i \<and> i < length xs then v else xs ! k)"
  by (cases "i < length xs") (auto simp: nth_list_update list_update_beyond)

lemma twin_start:
  assumes "shape x = shape f"
  shows "twin f x f"
  unfolding twin_def using assms by (auto simp: max_def intro: exI [of _ "align f"])

lemma twin_shape: "twin f x y \<Longrightarrow> shape y = shape x"
  by (simp add: twin_def)

lemma twin_raise:
  assumes "twin f x y"
  shows "twin f (raise_align x al) (raise_align y al)"
proof -
  have "\<exists>c. c \<le> align f \<and> max (align y) al = max (max (align x) al) c"
    if "max (align x) al \<le> align f"
  proof -
    from that have "align x \<le> align f" by (simp add: max_def split: if_splits)
    with assms obtain c where c: "c \<le> align f" and y: "align y = max (align x) c"
      unfolding twin_def by blast
    have "max (align y) al = max (max (align x) al) c"
      unfolding y by (simp add: ac_simps)
    with c show ?thesis by blast
  qed
  with assms show ?thesis unfolding twin_def by simp
qed

lemma twin_assign:
  assumes "twin f x y"
  shows "twin f (x\<lparr>align := a\<rparr>) (y\<lparr>align := a\<rparr>)"
  using assms unfolding twin_def by (auto simp: max_def intro: exI [of _ 0])

lemma twin_offset:
  assumes "twin f x y"
  shows "twin f (x\<lparr>offsets := (offsets x)[i := v]\<rparr>) (y\<lparr>offsets := (offsets y)[i := v]\<rparr>)"
proof -
  from assms have lx: "length (offsets x) = length (offsets f)"
    and ly: "length (offsets y) = length (offsets f)"
    unfolding twin_def by (metis shape_offsets)+
  show ?thesis
    using assms unfolding twin_def
    by (auto simp: nth_update_if lx ly)
qed

lemma twin_final:
  assumes "twin (x\<lparr>struct_size := s\<rparr>) x y"
  shows "y\<lparr>struct_size := s\<rparr> = x\<lparr>struct_size := s\<rparr>" and "align y = align x"
proof -
  let ?f = "x\<lparr>struct_size := s\<rparr>"
  from assms have sh: "shape y = shape ?f" and ss: "struct_size y = s"
    and os: "\<forall>k < length (offsets x). offsets y ! k = offsets x ! k"
    and al: "\<exists>c. c \<le> align x \<and> align y = max (align x) c"
    unfolding twin_def by auto
  from al show a: "align y = align x" by (auto simp: max_def)
  have "length (offsets y) = length (offsets ?f)" using sh by (rule shape_offsets)
  then have l: "length (offsets y) = length (offsets x)" by simp
  have o: "offsets y = offsets x"
    by (rule nth_equalityI) (use l os in simp_all)
  have shy: "shape y = shape x" using sh by simp
  show "y\<lparr>struct_size := s\<rparr> = x\<lparr>struct_size := s\<rparr>"
  proof (rule shape_eqI)
    show "shape (y\<lparr>struct_size := s\<rparr>) = shape (x\<lparr>struct_size := s\<rparr>)"
      using shy by simp
  qed (simp_all add: a o)
qed

text \<open>\<open>ObjectGetAttrInfo\<close> taken apart.\<close>

lemma ObjectGetAttrInfo_past:
  assumes "deref S p = Some t" and "nb_cols t \<le> i"
  shows "ObjectGetAttrInfo call pf S p i out = Some (S, 0, snd out)"
  using assms by (simp add: ObjectGetAttrInfo_def)

lemma ObjectGetAttrInfo_static:
  assumes "deref S p = Some t" and "i < nb_cols t"
    and "col_datatype (cols t ! i) \<noteq> OCI_CDT_OBJECT"
    and "attr_size_align pf (cols t ! i) = (sz, al)"
  shows "ObjectGetAttrInfo call pf S p i out = Some (S[p := raise_align t al], sz, al)"
  using assms by (simp add: ObjectGetAttrInfo_def raise_align_update)

lemma ObjectGetAttrInfo_nested:
  assumes "deref S p = Some t" and "i < nb_cols t"
    and "col_datatype (cols t ! i) = OCI_CDT_OBJECT"
    and "call S (col_typinf (cols t ! i)) out = Some (Sa, sz, al)"
    and "deref Sa p = Some ta"
  shows "ObjectGetAttrInfo call pf S p i out = Some (Sa[p := raise_align ta al], sz, al)"
  using assms by (simp add: ObjectGetAttrInfo_def raise_align_update)

lemma ObjectGetAttrInfo_cases:
  assumes "ObjectGetAttrInfo call pf S p i out = Some (S', sz, al)" and "deref S p = Some t"
  obtains (past) "nb_cols t \<le> i" and "S' = S" and "sz = 0" and "al = snd out"
  | (static) "i < nb_cols t" and "col_datatype (cols t ! i) \<noteq> OCI_CDT_OBJECT"
      and "attr_size_align pf (cols t ! i) = (sz, al)" and "S' = S[p := raise_align t al]"
  | (nested) Sa ta where "i < nb_cols t" and "col_datatype (cols t ! i) = OCI_CDT_OBJECT"
      and "call S (col_typinf (cols t ! i)) out = Some (Sa, sz, al)"
      and "deref Sa p = Some ta" and "S' = Sa[p := raise_align ta al]"
proof (cases "nb_cols t \<le> i")
  case True
  with assms past show ?thesis by (simp add: ObjectGetAttrInfo_def)
next
  case False
  show ?thesis
  proof (cases "col_datatype (cols t ! i) = OCI_CDT_OBJECT")
    case True
    with assms False obtain Sa ta where
      "call S (col_typinf (cols t ! i)) out = Some (Sa, sz, al)" and "deref Sa p = Some ta"
      and "S' = (if align ta < al then Sa[p := ta\<lparr>align := al\<rparr>] else Sa)"
      unfolding ObjectGetAttrInfo_def by (simp split: option.splits prod.splits)
    with nested [of Sa ta] False True show ?thesis by (simp add: raise_align_update)
  next
    case n: False
    with assms False have "attr_size_align pf (cols t ! i) = (sz, al)"
      and "S' = (if align t < al then S[p := t\<lparr>align := al\<rparr>] else S)"
      unfolding ObjectGetAttrInfo_def by (auto split: option.splits prod.splits)
    with static False n assms(2) show ?thesis by (simp add: raise_align_update)
  qed
qed

lemma ranked_col:
  assumes "ranked r X" and "deref X p = Some x" and "i < nb_cols x"
    and "col_datatype (cols x ! i) = OCI_CDT_OBJECT" and "col_typinf (cols x ! i) = Some q"
  shows "r q < r p"
proof -
  from assms(3) have "cols x ! i \<in> set (cols x)" by (simp add: nb_cols_def)
  with assms show ?thesis unfolding ranked_def by blast
qed

lemma col_reached_keeps:
  assumes "keeps pf r p X X'" and "col_reached pf p n X t j"
  shows "col_reached pf p n X' t j"
  using assms reached_keeps unfolding col_reached_def by blast

lemma ObjectGetAttrInfo_keeps:
  assumes s: "sound pf r n" and rk: "ranked r X" and x: "deref X p = Some x"
    and run: "ObjectGetAttrInfo (ObjectGetStructSize n pf) pf X p i out = Some (X', sz, al)"
  shows "keeps pf r p X X'" and "col_reached pf p n X' x i"
    and "\<exists>x'. deref X' p = Some x' \<and> shape x' = shape x"
proof -
  have "keeps pf r p X X' \<and> col_reached pf p n X' x i"
    using run x
  proof (cases rule: ObjectGetAttrInfo_cases)
    case past
    then show ?thesis by (simp add: keeps_refl col_reached_def)
  next
    case static
    then show ?thesis using keeps_update [OF rk x, of "raise_align x al"]
      by (simp add: col_reached_def)
  next
    case (nested Sa ta)
    show ?thesis
    proof (cases "col_typinf (cols x ! i)")
      case None
      with nested have "Sa = X" by simp
      with nested x None show ?thesis using keeps_update [OF rk x, of "raise_align x al"]
        by (simp add: col_reached_def)
    next
      case (Some q)
      have lt: "r q < r p" using ranked_col [OF rk x nested(1, 2) Some] .
      from nested(3) Some have
        c: "ObjectGetStructSize n pf X (Some q) out = Some (Sa, sz, al)" by simp
      note k = keeps_call [OF s rk lt c]
      have rka: "ranked r Sa" using keeps_ranked [OF k(1) rk] .
      have k2: "keeps pf r p Sa X'"
        unfolding nested(5) using keeps_update [OF rka nested(4), of "raise_align ta al"]
        by simp
      from keeps_trans [OF k(1) k2] reached_keeps [OF k2 k(3)] Some
      show ?thesis by (simp add: col_reached_def)
    qed
  qed
  then show "keeps pf r p X X'" and "col_reached pf p n X' x i" by simp_all
  from shape_deref [OF keeps_shape [OF \<open>keeps pf r p X X'\<close>] x]
  show "\<exists>x'. deref X' p = Some x' \<and> shape x' = shape x" .
qed

lemma reached_deref:
  assumes "keeps pf r p X Z" and "reached pf p n X c"
  shows "deref Z c = deref X c"
  using assms unfolding keeps_def reached_def by force

lemma keeps_length:
  assumes "keeps pf r p X Z" and "deref X p = Some x"
  shows "\<exists>z. deref Z p = Some z \<and> shape z = shape x"
  using shape_deref [OF keeps_shape [OF assms(1)] assms(2)] .

lemma col_reached_shape:
  assumes "shape t' = shape t"
  shows "col_reached pf p n X t' j = col_reached pf p n X t j"
  using shape_cols [OF assms] by (simp add: col_reached_def nb_cols_def)

lemma deref_update_same [simp]: "p < length S \<Longrightarrow> deref (S[p := t]) p = Some t"
  by (simp add: deref_def)

lemma ObjectGetAttrInfo_replay:
  assumes s: "sound pf r n" and rk: "ranked r X" and x: "deref X p = Some x"
    and run: "ObjectGetAttrInfo (ObjectGetStructSize n pf) pf X p i out = Some (X', sz, al)"
    and kz: "keeps pf r p X' Z" and tw: "twin f x y"
  shows "\<exists>x' y'. deref X' p = Some x' \<and>
           ObjectGetAttrInfo (ObjectGetStructSize n pf) pf (Z[p := y]) p i out
             = Some (Z[p := y'], sz, al) \<and> twin f x' y'"
proof -
  note kx = ObjectGetAttrInfo_keeps(1) [OF s rk x run]
  from keeps_length [OF keeps_trans [OF kx kz] x] obtain z where z: "deref Z p = Some z"
    and sz: "shape z = shape x" by blast
  then have pZ: "p < length Z" by (simp add: deref_Some)
  from x have pX: "p < length X" by (simp add: deref_Some)
  have y: "deref (Z[p := y]) p = Some y" using pZ by simp
  have sy: "shape y = shape x" using tw by (rule twin_shape)
  have cy: "cols y = cols x" using sy by (rule shape_cols)
  have ny: "nb_cols y = nb_cols x" using sy by (rule shape_nb_cols)
  have rkZ: "ranked r Z" using keeps_ranked [OF keeps_trans [OF kx kz] rk] .
  from run x show ?thesis
  proof (cases rule: ObjectGetAttrInfo_cases)
    case past
    with ObjectGetAttrInfo_past [OF y, of i _ pf out] ny x tw show ?thesis by auto
  next
    case static
    from ObjectGetAttrInfo_static [OF y, of i pf sz al] static ny cy have
      "ObjectGetAttrInfo (ObjectGetStructSize n pf) pf (Z[p := y]) p i out
         = Some (Z[p := raise_align y al], sz, al)" by simp
    moreover have "deref X' p = Some (raise_align x al)" using static pX by simp
    ultimately show ?thesis using twin_raise [OF tw] by blast
  next
    case (nested Sa ta)
    have "ObjectGetStructSize n pf (Z[p := y]) (col_typinf (cols x ! i)) out
            = Some (Z[p := y], sz, al) \<and> ta = x \<and> p < length Sa"
    proof (cases "col_typinf (cols x ! i)")
      case None
      with nested x pX show ?thesis by auto
    next
      case (Some q)
      have lt: "r q < r p" using ranked_col [OF rk x nested(1, 2) Some] .
      from nested(3) Some have
        c: "ObjectGetStructSize n pf X (Some q) out = Some (Sa, sz, al)" by simp
      note k = keeps_call [OF s rk lt c]
      from k(2) nested(4) x have ta: "ta = x" by simp
      have rka: "ranked r Sa" using keeps_ranked [OF k(1) rk] .
      have k2: "keeps pf r p Sa X'"
        unfolding nested(5) using keeps_update [OF rka nested(4), of "raise_align ta al"]
        by simp
      have kaz: "keeps pf r p Sa Z" using keeps_trans [OF k2 kz] .
      from k(4) obtain t where t: "deref Sa q = Some t" and f: "sz = struct_size t"
        "al = align t" by blast
      have tz: "deref Z q = Some t" using reached_deref [OF kaz k(3)] t by simp
      have "shape y = shape z" using sy sz by simp
      from replay_call [OF rkZ reached_keeps [OF kaz k(3)] z this tz, of out]
      show ?thesis using Some f ta nested(4) by (simp add: deref_Some)
    qed
    then have c: "ObjectGetStructSize n pf (Z[p := y]) (col_typinf (cols y ! i)) out
            = Some (Z[p := y], sz, al)" and ta: "ta = x" and pa: "p < length Sa"
      by (simp_all add: cy)
    from ObjectGetAttrInfo_nested [where call = "ObjectGetStructSize n pf" and S = "Z[p := y]"
        and Sa = "Z[p := y]" and t = y and ta = y and i = i and out = out and sz = sz
        and al = al and p = p and pf = pf] y c nested ny cy have
      "ObjectGetAttrInfo (ObjectGetStructSize n pf) pf (Z[p := y]) p i out
         = Some (Z[p := raise_align y al], sz, al)" by simp
    moreover have "deref X' p = Some (raise_align x al)" using nested pa ta by simp
    ultimately show ?thesis using twin_raise [OF tw] by blast
  qed
qed

lemma set_offset_E:
  assumes "set_offset X p i v = Some X'" and "deref X p = Some x"
  shows "i < length (offsets x)" and "X' = X[p := x\<lparr>offsets := (offsets x)[i := v]\<rparr>]"
  using assms unfolding set_offset_def by (auto split: if_splits)

lemma set_offset_keeps:
  assumes "ranked r X" and "deref X p = Some x" and "set_offset X p i v = Some X'"
  shows "keeps pf r p X X'" and "\<exists>x'. deref X' p = Some x' \<and> shape x' = shape x"
proof -
  from set_offset_E [OF assms(3, 2)] have
    X': "X' = X[p := x\<lparr>offsets := (offsets x)[i := v]\<rparr>]" by simp
  show "keeps pf r p X X'"
    unfolding X' using keeps_update [OF assms(1, 2)] by simp
  from assms(2) have "p < length X" by (simp add: deref_Some)
  then show "\<exists>x'. deref X' p = Some x' \<and> shape x' = shape x" unfolding X' by simp
qed

lemma set_offset_replay:
  assumes x: "deref X p = Some x" and run: "set_offset X p i v = Some X'"
    and pZ: "p < length Z" and tw: "twin f x y"
  shows "\<exists>x' y'. deref X' p = Some x' \<and> set_offset (Z[p := y]) p i v = Some (Z[p := y']) \<and>
           twin f x' y'"
proof -
  from set_offset_E [OF run x] have l: "i < length (offsets x)"
    and X': "X' = X[p := x\<lparr>offsets := (offsets x)[i := v]\<rparr>]" by simp_all
  from x have pX: "p < length X" by (simp add: deref_Some)
  have "length (offsets y) = length (offsets x)"
    using twin_shape [OF tw] by (rule shape_offsets)
  with l pZ have "set_offset (Z[p := y]) p i v
                    = Some (Z[p := y\<lparr>offsets := (offsets y)[i := v]\<rparr>])"
    by (simp add: set_offset_def)
  moreover have "deref X' p = Some (x\<lparr>offsets := (offsets x)[i := v]\<rparr>)"
    unfolding X' using pX by simp
  ultimately show ?thesis using twin_offset [OF tw] by blast
qed

lemma copy_offsets_keeps:
  assumes pp: "pp \<noteq> p"
  shows "ranked r X \<Longrightarrow> deref X p = Some x \<Longrightarrow> copy_offsets X p pp is = Some X' \<Longrightarrow>
         keeps pf r p X X' \<and> deref X' pp = deref X pp"
proof (induction "is" arbitrary: X x)
  case Nil
  then show ?case by (simp add: keeps_refl)
next
  case (Cons i "is")
  from Cons.prems(3) obtain par Xa where par: "deref X pp = Some par"
    and a: "set_offset X p i (offsets par ! i) = Some Xa"
    and r: "copy_offsets Xa p pp is = Some X'"
    by (auto split: option.splits if_splits)
  note k = set_offset_keeps [OF Cons.prems(1, 2) a]
  from k(2) obtain xa where xa: "deref Xa p = Some xa" by blast
  from set_offset_E(2) [OF a Cons.prems(2)] pp have e: "deref Xa pp = deref X pp"
    by (simp add: deref_update)
  from Cons.IH [OF keeps_ranked [OF k(1) Cons.prems(1)] xa r] e keeps_trans [OF k(1)]
  show ?case by simp
qed

lemma copy_offsets_replay:
  assumes pp: "pp \<noteq> p" and pZ: "p < length Z"
  shows "deref X p = Some x \<Longrightarrow> deref Z pp = deref X pp \<Longrightarrow> twin f x y \<Longrightarrow>
         copy_offsets X p pp is = Some X' \<Longrightarrow>
         \<exists>x' y'. deref X' p = Some x' \<and> copy_offsets (Z[p := y]) p pp is = Some (Z[p := y']) \<and>
           twin f x' y'"
proof (induction "is" arbitrary: X x y)
  case Nil
  then show ?case by auto
next
  case (Cons i "is")
  from Cons.prems(4) obtain par Xa where par: "deref X pp = Some par"
    and l: "i < length (offsets par)"
    and a: "set_offset X p i (offsets par ! i) = Some Xa"
    and r: "copy_offsets Xa p pp is = Some X'"
    by (auto split: option.splits if_splits)
  from set_offset_replay [OF Cons.prems(1) a pZ Cons.prems(3)] obtain xa ya where
    xa: "deref Xa p = Some xa"
    and a': "set_offset (Z[p := y]) p i (offsets par ! i) = Some (Z[p := ya])"
    and tw: "twin f xa ya" by blast
  from set_offset_E(2) [OF a Cons.prems(1)] pp have e: "deref Xa pp = deref X pp"
    by (simp add: deref_update)
  from Cons.IH [OF xa _ tw r] e Cons.prems(2) obtain x' y' where
    x': "deref X' p = Some x'"
    and r': "copy_offsets (Z[p := ya]) p pp is = Some (Z[p := y'])"
    and tw': "twin f x' y'" by auto
  have "deref (Z[p := y]) pp = Some par"
    using Cons.prems(2) par pp by (simp add: deref_update)
  with l a' r' have "copy_offsets (Z[p := y]) p pp (i # is) = Some (Z[p := y'])" by simp
  with x' tw' show ?case by blast
qed

lemma loop_head_keeps:
  assumes s: "sound pf r n" and rk: "ranked r X" and x: "deref X p = Some x"
    and run: "loop_head (ObjectGetStructSize n pf) pf p i X sz sz1 sz2 algn = Some (X', s1, a1)"
  shows "keeps pf r p X X'" and "i = 0 \<longrightarrow> col_reached pf p n X' x 0"
    and "\<exists>x'. deref X' p = Some x' \<and> shape x' = shape x"
proof -
  have "keeps pf r p X X' \<and> (i = 0 \<longrightarrow> col_reached pf p n X' x 0)"
  proof (cases "0 < i")
    case True
    with run have "set_offset X p i (ucast sz) = Some X'"
      unfolding loop_head_def by (auto split: option.splits)
    from set_offset_keeps(1) [OF rk x this] True show ?thesis by simp
  next
    case False
    with run obtain Xa where
      a: "ObjectGetAttrInfo (ObjectGetStructSize n pf) pf X p i (sz1, algn) = Some (Xa, s1, a1)"
      and b: "set_offset Xa p i 0 = Some X'"
      unfolding loop_head_def by (auto split: option.splits)
    note k = ObjectGetAttrInfo_keeps [OF s rk x a]
    from k(3) obtain xa where xa: "deref Xa p = Some xa" by blast
    note k2 = set_offset_keeps(1) [OF keeps_ranked [OF k(1) rk] xa b]
    from keeps_trans [OF k(1) k2] col_reached_keeps [OF k2 k(2)] False
    show ?thesis by simp
  qed
  then show k: "keeps pf r p X X'" and "i = 0 \<longrightarrow> col_reached pf p n X' x 0" by simp_all
  from keeps_length [OF k x]
  show "\<exists>x'. deref X' p = Some x' \<and> shape x' = shape x" .
qed

lemma loop_head_replay:
  assumes s: "sound pf r n" and rk: "ranked r X" and x: "deref X p = Some x"
    and run: "loop_head (ObjectGetStructSize n pf) pf p i X sz sz1 sz2 algn = Some (X', s1, a1)"
    and kz: "keeps pf r p X' Z" and tw: "twin f x y"
  shows "\<exists>x' y'. deref X' p = Some x' \<and>
           loop_head (ObjectGetStructSize n pf) pf p i (Z[p := y]) sz sz1 sz2 algn
             = Some (Z[p := y'], s1, a1) \<and> twin f x' y'"
proof -
  note kx = loop_head_keeps(1) [OF s rk x run]
  from keeps_length [OF keeps_trans [OF kx kz] x] have pZ: "p < length Z"
    by (auto simp: deref_Some)
  show ?thesis
  proof (cases "0 < i")
    case True
    with run have a: "set_offset X p i (ucast sz) = Some X'" and e: "s1 = sz2" "a1 = algn"
      unfolding loop_head_def by (auto split: option.splits)
    from set_offset_replay [OF x a pZ tw] True e show ?thesis
      unfolding loop_head_def by auto
  next
    case False
    with run obtain Xa where
      a: "ObjectGetAttrInfo (ObjectGetStructSize n pf) pf X p i (sz1, algn) = Some (Xa, s1, a1)"
      and b: "set_offset Xa p i 0 = Some X'"
      unfolding loop_head_def by (auto split: option.splits)
    note k = ObjectGetAttrInfo_keeps [OF s rk x a]
    from k(3) obtain xa0 where xa0: "deref Xa p = Some xa0" by blast
    note k2 = set_offset_keeps(1) [OF keeps_ranked [OF k(1) rk] xa0 b]
    from ObjectGetAttrInfo_replay [OF s rk x a keeps_trans [OF k2 kz] tw] obtain xa ya where
      xa: "deref Xa p = Some xa"
      and a': "ObjectGetAttrInfo (ObjectGetStructSize n pf) pf (Z[p := y]) p i (sz1, algn)
                 = Some (Z[p := ya], s1, a1)"
      and twa: "twin f xa ya" by blast
    from set_offset_replay [OF xa b pZ twa] obtain x' y' where
      "deref X' p = Some x'" and "set_offset (Z[p := ya]) p i 0 = Some (Z[p := y'])"
      and "twin f x' y'" by blast
    with a' False show ?thesis unfolding loop_head_def by auto
  qed
qed

lemma layout_loop_keeps:
  assumes s: "sound pf r n"
  shows "ranked r X \<Longrightarrow> deref X p = Some x \<Longrightarrow>
         layout_loop (ObjectGetStructSize n pf) pf p is (X, st) = Some (X', st') \<Longrightarrow>
         keeps pf r p X X' \<and>
         (\<forall>i \<in> set is. col_reached pf p n X' x (Suc i) \<and> (i = 0 \<longrightarrow> col_reached pf p n X' x 0))"
proof (induction "is" arbitrary: X x st)
  case Nil
  then show ?case by (simp add: keeps_refl)
next
  case (Cons i "is")
  obtain sz sz1 sz2 algn where st: "st = (sz, sz1, sz2, algn)" by (cases st) auto
  from Cons.prems(3) [unfolded st] obtain Xa sz1' align_a Xb sz2' align_b where
    h: "loop_head (ObjectGetStructSize n pf) pf p i X sz sz1 sz2 algn = Some (Xa, sz1', align_a)"
    and a: "ObjectGetAttrInfo (ObjectGetStructSize n pf) pf Xa p (i + 1) (sz2, align_a)
              = Some (Xb, sz2', align_b)"
    and l: "layout_loop (ObjectGetStructSize n pf) pf p is
              (Xb, ROUNDUP pf (sz + sz1') align_b, sz1', sz2', align_b) = Some (X', st')"
    by (rule layout_loop_ConsE)
  note kh = loop_head_keeps [OF s Cons.prems(1, 2) h]
  from kh(3) obtain xa where xa: "deref Xa p = Some xa" and sa: "shape xa = shape x" by blast
  have rka: "ranked r Xa" using keeps_ranked [OF kh(1) Cons.prems(1)] .
  note ka = ObjectGetAttrInfo_keeps [OF s rka xa a]
  from ka(3) obtain xb where xb: "deref Xb p = Some xb" and sb: "shape xb = shape xa" by blast
  have rkb: "ranked r Xb" using keeps_ranked [OF ka(1) rka] .
  from Cons.IH [OF rkb xb l] have kl: "keeps pf r p Xb X'"
    and cl: "\<forall>i \<in> set is. col_reached pf p n X' xb (Suc i) \<and>
               (i = 0 \<longrightarrow> col_reached pf p n X' xb 0)" by simp_all
  have sbx: "shape xb = shape x" using sa sb by simp
  have k: "keeps pf r p X X'" using keeps_trans [OF kh(1) keeps_trans [OF ka(1) kl]] .
  have c1: "col_reached pf p n X' x (Suc i)"
    using col_reached_keeps [OF kl ka(2)] col_reached_shape [OF sa] by simp
  have c0: "i = 0 \<longrightarrow> col_reached pf p n X' x 0"
    using kh(2) col_reached_keeps [OF keeps_trans [OF ka(1) kl]] by blast
  from k c1 c0 cl show ?case by (simp add: col_reached_shape [OF sbx])
qed

lemma layout_loop_replay:
  assumes s: "sound pf r n"
  shows "ranked r X \<Longrightarrow> deref X p = Some x \<Longrightarrow>
         layout_loop (ObjectGetStructSize n pf) pf p is (X, st) = Some (X', st') \<Longrightarrow>
         keeps pf r p X' Z \<Longrightarrow> twin f x y \<Longrightarrow>
         \<exists>x' y'. deref X' p = Some x' \<and>
           layout_loop (ObjectGetStructSize n pf) pf p is (Z[p := y], st)
             = Some (Z[p := y'], st') \<and> twin f x' y'"
proof (induction "is" arbitrary: X x y st)
  case Nil
  then show ?case by auto
next
  case (Cons i "is")
  obtain sz sz1 sz2 algn where st: "st = (sz, sz1, sz2, algn)" by (cases st) auto
  from Cons.prems(3) [unfolded st] obtain Xa sz1' align_a Xb sz2' align_b where
    h: "loop_head (ObjectGetStructSize n pf) pf p i X sz sz1 sz2 algn = Some (Xa, sz1', align_a)"
    and a: "ObjectGetAttrInfo (ObjectGetStructSize n pf) pf Xa p (i + 1) (sz2, align_a)
              = Some (Xb, sz2', align_b)"
    and l: "layout_loop (ObjectGetStructSize n pf) pf p is
              (Xb, ROUNDUP pf (sz + sz1') align_b, sz1', sz2', align_b) = Some (X', st')"
    by (rule layout_loop_ConsE)
  note kh = loop_head_keeps [OF s Cons.prems(1, 2) h]
  from kh(3) obtain xa0 where xa0: "deref Xa p = Some xa0" by blast
  have rka: "ranked r Xa" using keeps_ranked [OF kh(1) Cons.prems(1)] .
  note ka = ObjectGetAttrInfo_keeps [OF s rka xa0 a]
  from ka(3) obtain xb0 where xb0: "deref Xb p = Some xb0" by blast
  have rkb: "ranked r Xb" using keeps_ranked [OF ka(1) rka] .
  from layout_loop_keeps [OF s rkb xb0 l] have kl: "keeps pf r p Xb X'" by simp
  have kbz: "keeps pf r p Xb Z" using keeps_trans [OF kl Cons.prems(4)] .
  have kaz: "keeps pf r p Xa Z" using keeps_trans [OF ka(1) kbz] .
  from loop_head_replay [OF s Cons.prems(1, 2) h kaz Cons.prems(5)] obtain xa ya where
    xa: "deref Xa p = Some xa"
    and h': "loop_head (ObjectGetStructSize n pf) pf p i (Z[p := y]) sz sz1 sz2 algn
               = Some (Z[p := ya], sz1', align_a)"
    and twa: "twin f xa ya" by blast
  from ObjectGetAttrInfo_replay [OF s rka xa a kbz twa] obtain xb yb where
    xb: "deref Xb p = Some xb"
    and a': "ObjectGetAttrInfo (ObjectGetStructSize n pf) pf (Z[p := ya]) p (i + 1)
               (sz2, align_a) = Some (Z[p := yb], sz2', align_b)"
    and twb: "twin f xb yb" by blast
  from Cons.IH [OF rkb xb l Cons.prems(4) twb] obtain x' y' where
    x': "deref X' p = Some x'"
    and l': "layout_loop (ObjectGetStructSize n pf) pf p is
               (Z[p := yb], ROUNDUP pf (sz + sz1') align_b, sz1', sz2', align_b)
               = Some (Z[p := y'], st')"
    and tw': "twin f x' y'" by blast
  from layout_loop_ConsI [OF h' a' l'] x' tw' show ?case unfolding st by blast
qed

lemma ranked_parent:
  assumes "ranked r X" and "deref X p = Some x" and "parent_type x = Some pp"
  shows "r pp < r p"
  using assms unfolding ranked_def by blast

lemma layout_parent_keeps:
  assumes s: "sound pf r n" and rk: "ranked r X" and x: "deref X p = Some x"
    and run: "layout_parent (ObjectGetStructSize n pf) pf X p x = Some (X', sz, sz2, algn, j0)"
  shows "keeps pf r p X X'" and "j0 = first_own X x"
    and "\<forall>pp. parent_type x = Some pp \<longrightarrow> reached pf p n X' pp"
    and "parent_type x \<noteq> None \<longrightarrow> col_reached pf p n X' x j0"
proof -
  have "keeps pf r p X X' \<and> j0 = first_own X x \<and>
        (\<forall>pp. parent_type x = Some pp \<longrightarrow> reached pf p n X' pp) \<and>
        (parent_type x \<noteq> None \<longrightarrow> col_reached pf p n X' x j0)"
  proof (cases "parent_type x")
    case None
    from layout_parent_NoneE [OF run None] None show ?thesis
      by (simp add: keeps_refl first_own_def)
  next
    case (Some pp)
    have lt: "r pp < r p" using ranked_parent [OF rk x Some] .
    then have ne: "pp \<noteq> p" by auto
    from layout_parent_SomeE [OF run Some] obtain Xa sz0 algn0 par Xb where
      c: "ObjectGetStructSize n pf X (Some pp) (0, 0) = Some (Xa, sz0, algn0)"
      and d: "deref Xa pp = Some par"
      and cp: "copy_offsets Xa p pp [0..<nb_cols par] = Some Xb"
      and own: "nb_cols par < nb_cols x \<longrightarrow>
           (\<exists>t2 S3 sz2' next_align. deref Xb p = Some t2 \<and>
              ObjectGetAttrInfo (ObjectGetStructSize n pf) pf (Xb[p := t2\<lparr>align := algn0\<rparr>]) p
                 (nb_cols par) (0, 0) = Some (S3, sz2', next_align) \<and>
              (X', sz, sz2, algn, j0)
                = (S3, ROUNDUP pf sz0 next_align, sz2', algn0, nb_cols par))"
      and noown: "\<not> nb_cols par < nb_cols x \<longrightarrow>
           (X', sz, sz2, algn, j0) = (Xb, sz0, 0, algn0, nb_cols par)"
      by blast
    note k = keeps_call [OF s rk lt c]
    have rka: "ranked r Xa" using keeps_ranked [OF k(1) rk] .
    have xa: "deref Xa p = Some x" using k(2) x by simp
    from copy_offsets_keeps [OF ne rka xa cp] have kb: "keeps pf r p Xa Xb" by simp
    have rkb: "ranked r Xb" using keeps_ranked [OF kb rka] .
    have kxb: "keeps pf r p X Xb" using keeps_trans [OF k(1) kb] .
    have j: "j0 = nb_cols par" using own noown by (cases "nb_cols par < nb_cols x") auto
    have fo: "nb_cols par = first_own X x"
      using first_own_parent [OF Some keeps_shape [OF k(1)] d] .
    show ?thesis
    proof (cases "nb_cols par < nb_cols x")
      case False
      with noown have e: "X' = Xb" by simp
      have "col_reached pf p n X' x j0" using False j by (simp add: col_reached_def)
      with e kxb j fo reached_keeps [OF kb k(3)] Some show ?thesis by simp
    next
      case True
      with own obtain t2 sz2' next_align where t2: "deref Xb p = Some t2"
        and a: "ObjectGetAttrInfo (ObjectGetStructSize n pf) pf (Xb[p := t2\<lparr>align := algn0\<rparr>]) p
                 (nb_cols par) (0, 0) = Some (X', sz2', next_align)"
        by auto
      let ?Xc = "Xb[p := t2\<lparr>align := algn0\<rparr>]"
      have kc: "keeps pf r p Xb ?Xc" using keeps_update [OF rkb t2, of "t2\<lparr>align := algn0\<rparr>"]
        by simp
      have rkc: "ranked r ?Xc" using keeps_ranked [OF kc rkb] .
      have xc: "deref ?Xc p = Some (t2\<lparr>align := algn0\<rparr>)"
        using t2 by (simp add: deref_Some)
      note ka = ObjectGetAttrInfo_keeps [OF s rkc xc a]
      from keeps_length [OF kxb x] t2 have st2: "shape t2 = shape x" by auto
      have "col_reached pf p n X' x j0"
        using ka(2) col_reached_shape [of "t2\<lparr>align := algn0\<rparr>" x] st2 j by simp
      moreover have "keeps pf r p Xa X'"
        using keeps_trans [OF kb keeps_trans [OF kc ka(1)]] .
      ultimately show ?thesis
        using keeps_trans [OF k(1)] reached_keeps [OF _ k(3)] j fo Some by auto
    qed
  qed
  then show "keeps pf r p X X'" and "j0 = first_own X x"
    and "\<forall>pp. parent_type x = Some pp \<longrightarrow> reached pf p n X' pp"
    and "parent_type x \<noteq> None \<longrightarrow> col_reached pf p n X' x j0" by blast+
qed

lemma layout_parent_replay:
  assumes s: "sound pf r n" and rk: "ranked r X" and x: "deref X p = Some x"
    and run: "layout_parent (ObjectGetStructSize n pf) pf X p x = Some (X', res)"
    and kz: "keeps pf r p X' Z" and tw: "twin f x y"
  shows "\<exists>x' y'. deref X' p = Some x' \<and>
           layout_parent (ObjectGetStructSize n pf) pf (Z[p := y]) p y
             = Some (Z[p := y'], res) \<and> twin f x' y'"
proof -
  obtain sz sz2 algn j0 where res: "res = (sz, sz2, algn, j0)" by (cases res) auto
  note kx = layout_parent_keeps(1) [OF s rk x run [unfolded res]]
  from keeps_length [OF keeps_trans [OF kx kz] x] obtain z where z: "deref Z p = Some z"
    and sz: "shape z = shape x" by blast
  then have pZ: "p < length Z" by (simp add: deref_Some)
  have rkZ: "ranked r Z" using keeps_ranked [OF keeps_trans [OF kx kz] rk] .
  have sy: "shape y = shape x" using tw by (rule twin_shape)
  have ny: "nb_cols y = nb_cols x" using sy by (rule shape_nb_cols)
  have py: "parent_type y = parent_type x" using sy by (rule shape_parent)
  show ?thesis
  proof (cases "parent_type x")
    case None
    from layout_parent_NoneE [OF run None] None py x tw show ?thesis
      by (auto simp: layout_parent_def)
  next
    case (Some pp)
    have lt: "r pp < r p" using ranked_parent [OF rk x Some] .
    then have ne: "pp \<noteq> p" by auto
    from layout_parent_SomeE [OF run Some] obtain Xa sz0 algn0 par Xb where
      c: "ObjectGetStructSize n pf X (Some pp) (0, 0) = Some (Xa, sz0, algn0)"
      and d: "deref Xa pp = Some par"
      and cp: "copy_offsets Xa p pp [0..<nb_cols par] = Some Xb"
      and own: "nb_cols par < nb_cols x \<longrightarrow>
           (\<exists>t2 S3 sz2' next_align. deref Xb p = Some t2 \<and>
              ObjectGetAttrInfo (ObjectGetStructSize n pf) pf (Xb[p := t2\<lparr>align := algn0\<rparr>]) p
                 (nb_cols par) (0, 0) = Some (S3, sz2', next_align) \<and>
              (X', res) = (S3, ROUNDUP pf sz0 next_align, sz2', algn0, nb_cols par))"
      and noown: "\<not> nb_cols par < nb_cols x \<longrightarrow>
           (X', res) = (Xb, sz0, 0, algn0, nb_cols par)"
      by blast
    note k = keeps_call [OF s rk lt c]
    have rka: "ranked r Xa" using keeps_ranked [OF k(1) rk] .
    have xa: "deref Xa p = Some x" using k(2) x by simp
    from copy_offsets_keeps [OF ne rka xa cp] have kb: "keeps pf r p Xa Xb" by simp
    have rkb: "ranked r Xb" using keeps_ranked [OF kb rka] .
    have kaX': "keeps pf r p Xa X'"
    proof (cases "nb_cols par < nb_cols x")
      case False
      with noown kb show ?thesis by simp
    next
      case True
      with own obtain t2 sz2' next_align where t2: "deref Xb p = Some t2"
        and a: "ObjectGetAttrInfo (ObjectGetStructSize n pf) pf (Xb[p := t2\<lparr>align := algn0\<rparr>]) p
                 (nb_cols par) (0, 0) = Some (X', sz2', next_align)"
        by auto
      let ?Xc = "Xb[p := t2\<lparr>align := algn0\<rparr>]"
      have kc: "keeps pf r p Xb ?Xc" using keeps_update [OF rkb t2, of "t2\<lparr>align := algn0\<rparr>"]
        by simp
      have xc: "deref ?Xc p = Some (t2\<lparr>align := algn0\<rparr>)"
        using t2 by (simp add: deref_Some)
      from ObjectGetAttrInfo_keeps(1) [OF s keeps_ranked [OF kc rkb] xc a]
      show ?thesis using keeps_trans [OF kb keeps_trans [OF kc]] by blast
    qed
    have kaz: "keeps pf r p Xa Z" using keeps_trans [OF kaX' kz] .
    from k(4) d have f: "sz0 = struct_size par" "algn0 = align par" by auto
    have zpp: "deref Z pp = Some par" using reached_deref [OF kaz k(3)] d by simp
    have "shape y = shape z" using sy sz by simp
    from replay_call [OF rkZ reached_keeps [OF kaz k(3)] z this zpp, of "(0, 0)"] f
    have c': "ObjectGetStructSize n pf (Z[p := y]) (Some pp) (0, 0)
                = Some (Z[p := y], sz0, algn0)" by simp
    have d': "deref (Z[p := y]) pp = Some par" using zpp ne by (simp add: deref_update)
    have "deref Z pp = deref Xa pp" using zpp d by simp
    from copy_offsets_replay [OF ne pZ xa this tw cp] obtain xb yb where
      xb: "deref Xb p = Some xb"
      and cp': "copy_offsets (Z[p := y]) p pp [0..<nb_cols par] = Some (Z[p := yb])"
      and twb: "twin f xb yb" by blast
    show ?thesis
    proof (cases "nb_cols par < nb_cols x")
      case False
      with noown have "X' = Xb" and "res = (sz0, 0, algn0, nb_cols par)" by simp_all
      with c' d' cp' False ny py Some xb twb show ?thesis
        by (auto simp: layout_parent_def)
    next
      case True
      with own xb obtain sz2' next_align where
        a: "ObjectGetAttrInfo (ObjectGetStructSize n pf) pf (Xb[p := xb\<lparr>align := algn0\<rparr>]) p
                 (nb_cols par) (0, 0) = Some (X', sz2', next_align)"
        and r: "res = (ROUNDUP pf sz0 next_align, sz2', algn0, nb_cols par)"
        by auto
      let ?Xc = "Xb[p := xb\<lparr>align := algn0\<rparr>]"
      have kc: "keeps pf r p Xb ?Xc" using keeps_update [OF rkb xb, of "xb\<lparr>align := algn0\<rparr>"]
        by simp
      have xc: "deref ?Xc p = Some (xb\<lparr>align := algn0\<rparr>)"
        using xb by (simp add: deref_Some)
      from ObjectGetAttrInfo_replay [OF s keeps_ranked [OF kc rkb] xc a kz twin_assign [OF twb]]
      obtain x' y' where x': "deref X' p = Some x'"
        and a': "ObjectGetAttrInfo (ObjectGetStructSize n pf) pf (Z[p := yb\<lparr>align := algn0\<rparr>]) p
                   (nb_cols par) (0, 0) = Some (Z[p := y'], sz2', next_align)"
        and tw': "twin f x' y'" by blast
      have "layout_parent (ObjectGetStructSize n pf) pf (Z[p := y]) p y
              = Some (Z[p := y'], res)"
        using c' d' cp' True ny py Some a' r pZ by (simp add: layout_parent_def)
      with x' tw' show ?thesis by blast
    qed
  qed
qed

lemma compute_layout_E:
  assumes "compute_layout call pf X p = Some F" and "deref X p = Some x"
  obtains Xa sz sz2 algn j0 Xb sz' sz1' sz2' align' tb where
    "layout_parent call pf X p x = Some (Xa, sz, sz2, algn, j0)"
    and "layout_loop call pf p [j0..<nb_cols x] (Xa, sz, 0, sz2, algn)
              = Some (Xb, sz', sz1', sz2', align')"
    and "deref Xb p = Some tb"
    and "F = Xb[p := tb\<lparr>struct_size := ROUNDUP pf (sz' + sz2') (align tb)\<rparr>]"
  using assms unfolding compute_layout_def by (auto split: option.splits prod.splits)

lemma compute_layout_keeps:
  assumes s: "sound pf r n" and rk: "ranked r X" and x: "deref X p = Some x"
    and run: "compute_layout (ObjectGetStructSize n pf) pf X p = Some F"
  shows "keeps pf r p X F" and "\<forall>c. Some c \<in> call_args X x \<longrightarrow> reached pf p n F c"
proof -
  from compute_layout_E [OF run x] obtain Xa sz sz2 algn j0 Xb sz' sz1' sz2' align' tb where
    a: "layout_parent (ObjectGetStructSize n pf) pf X p x = Some (Xa, sz, sz2, algn, j0)"
    and b: "layout_loop (ObjectGetStructSize n pf) pf p [j0..<nb_cols x] (Xa, sz, 0, sz2, algn)
              = Some (Xb, sz', sz1', sz2', align')"
    and tb: "deref Xb p = Some tb"
    and F: "F = Xb[p := tb\<lparr>struct_size := ROUNDUP pf (sz' + sz2') (align tb)\<rparr>]"
    by blast
  note ka = layout_parent_keeps [OF s rk x a]
  have rka: "ranked r Xa" using keeps_ranked [OF ka(1) rk] .
  from keeps_length [OF ka(1) x] obtain xa where xa: "deref Xa p = Some xa"
    and sa: "shape xa = shape x" by blast
  from layout_loop_keeps [OF s rka xa b] have kb: "keeps pf r p Xa Xb"
    and cb: "\<forall>i \<in> set [j0..<nb_cols x]. col_reached pf p n Xb x (Suc i) \<and>
               (i = 0 \<longrightarrow> col_reached pf p n Xb x 0)"
    by (simp_all add: col_reached_shape [OF sa])
  have rkb: "ranked r Xb" using keeps_ranked [OF kb rka] .
  have kf: "keeps pf r p Xb F"
    unfolding F using keeps_update [OF rkb tb] by simp
  show k: "keeps pf r p X F" using keeps_trans [OF ka(1) keeps_trans [OF kb kf]] .
  show "\<forall>c. Some c \<in> call_args X x \<longrightarrow> reached pf p n F c"
  proof (intro allI impI)
    fix c assume "Some c \<in> call_args X x"
    then consider "parent_type x = Some c"
      | j where "first_own X x \<le> j" and "j < nb_cols x"
          and "col_datatype (cols x ! j) = OCI_CDT_OBJECT"
          and "col_typinf (cols x ! j) = Some c"
      unfolding call_args_def col_args_def by (auto split: option.splits)
    then show "reached pf p n F c"
    proof cases
      case 1
      with ka(3) have "reached pf p n Xa c" by simp
      from reached_keeps [OF keeps_trans [OF kb kf] this] show ?thesis .
    next
      case 2
      have "col_reached pf p n Xb x j"
      proof (cases "j = j0")
        case True
        show ?thesis
        proof (cases "parent_type x")
          case None
          with ka(2) have "j0 = 0" by (simp add: first_own_def)
          with True 2(2) cb show ?thesis by simp
        next
          case (Some pp)
          with ka(4) True col_reached_keeps [OF kb] show ?thesis by simp
        qed
      next
        case False
        with 2(1) ka(2) have "j0 \<le> j - 1" and "j = Suc (j - 1)" by simp_all
        moreover from 2(2) have "j - 1 < nb_cols x" by simp
        ultimately have "j - 1 \<in> set [j0..<nb_cols x]" by simp
        with cb \<open>j = Suc (j - 1)\<close> show ?thesis by metis
      qed
      with 2 have "reached pf p n Xb c" by (simp add: col_reached_def)
      from reached_keeps [OF kf this] show ?thesis .
    qed
  qed
qed

lemma compute_layout_replay:
  assumes s: "sound pf r n" and rk: "ranked r X" and x: "deref X p = Some x"
    and run: "compute_layout (ObjectGetStructSize n pf) pf X p = Some F"
  shows "compute_layout (ObjectGetStructSize n pf) pf F p = Some F"
proof -
  from compute_layout_E [OF run x] obtain Xa sz sz2 algn j0 Xb sz' sz1' sz2' align' tb where
    a: "layout_parent (ObjectGetStructSize n pf) pf X p x = Some (Xa, sz, sz2, algn, j0)"
    and b: "layout_loop (ObjectGetStructSize n pf) pf p [j0..<nb_cols x] (Xa, sz, 0, sz2, algn)
              = Some (Xb, sz', sz1', sz2', align')"
    and tb: "deref Xb p = Some tb"
    and F: "F = Xb[p := tb\<lparr>struct_size := ROUNDUP pf (sz' + sz2') (align tb)\<rparr>]"
    by blast
  let ?s = "ROUNDUP pf (sz' + sz2') (align tb)"
  let ?f = "tb\<lparr>struct_size := ?s\<rparr>"
  note ka = layout_parent_keeps [OF s rk x a]
  have rka: "ranked r Xa" using keeps_ranked [OF ka(1) rk] .
  from keeps_length [OF ka(1) x] obtain xa0 where xa0: "deref Xa p = Some xa0" by blast
  from layout_loop_keeps [OF s rka xa0 b] have kb: "keeps pf r p Xa Xb" by simp
  have rkb: "ranked r Xb" using keeps_ranked [OF kb rka] .
  have kf: "keeps pf r p Xb F"
    unfolding F using keeps_update [OF rkb tb] by simp
  have pb: "p < length Xb" using tb by (simp add: deref_Some)
  have fF: "deref F p = Some ?f" unfolding F using pb by simp
  have FF: "F[p := ?f] = F" using fF by (rule update_deref_same)
  from keeps_length [OF keeps_trans [OF ka(1) kb] x] tb have "shape tb = shape x" by auto
  then have "shape x = shape ?f" by simp
  then have tw: "twin ?f x ?f" by (rule twin_start)
  from layout_parent_replay [OF s rk x a keeps_trans [OF kb kf] tw] obtain xa ya where
    xa: "deref Xa p = Some xa"
    and a': "layout_parent (ObjectGetStructSize n pf) pf (F[p := ?f]) p ?f
               = Some (F[p := ya], sz, sz2, algn, j0)"
    and twa: "twin ?f xa ya" by blast
  from layout_loop_replay [OF s rka xa b kf twa] tb obtain yb where
    b': "layout_loop (ObjectGetStructSize n pf) pf p [j0..<nb_cols x]
           (F[p := ya], sz, 0, sz2, algn) = Some (F[p := yb], sz', sz1', sz2', align')"
    and twb: "twin ?f tb yb" by auto
  note fin = twin_final [OF twb]
  have pF: "p < length F" using fF by (simp add: deref_Some)
  have nf: "nb_cols ?f = nb_cols x" using \<open>shape x = shape ?f\<close> shape_nb_cols by metis
  have "compute_layout (ObjectGetStructSize n pf) pf F p
          = Some ((F[p := yb])[p := yb\<lparr>struct_size := ROUNDUP pf (sz' + sz2') (align yb)\<rparr>])"
    using fF a' [unfolded FF] b' nf pF by (simp add: compute_layout_def)
  also have "(F[p := yb])[p := yb\<lparr>struct_size := ROUNDUP pf (sz' + sz2') (align yb)\<rparr>] = F"
    using fin FF by simp
  finally show ?thesis .
qed

section \<open>Every call leaves its descriptor settled\<close>

lemma settled_cached:
  assumes "deref X p = Some t" and "struct_size t \<noteq> 0"
  shows "Done pf {(Suc 0, p)} X"
  using assms unfolding Done_def settled_def by simp

lemma Done_Union:
  "Done pf {e. \<exists>D. Done pf D X \<and> p \<notin> snd ` D \<and> e \<in> D} X"
  unfolding Done_def by blast

lemma Done_insert:
  assumes "Done pf U X" and "settled pf X h p"
    and "\<And>t c. deref X p = Some t \<Longrightarrow> struct_size t = 0 \<Longrightarrow> Some c \<in> call_args X t \<Longrightarrow>
           \<exists>k<h. (k, c) \<in> insert (h, p) U"
  shows "Done pf (insert (h, p) U) X"
  unfolding Done_def
proof (intro ballI)
  fix e assume e: "e \<in> insert (h, p) U"
  obtain j a where ja: "e = (j, a)" by (cases e) auto
  show "case e of (h', a) \<Rightarrow> settled pf X h' a \<and>
          (\<forall>t c. deref X a = Some t \<longrightarrow> struct_size t = 0 \<longrightarrow> Some c \<in> call_args X t \<longrightarrow>
             (\<exists>k<h'. (k, c) \<in> insert (h, p) U))"
  proof (cases "e = (h, p)")
    case True
    with assms(2, 3) show ?thesis by simp
  next
    case False
    with e ja have u: "(j, a) \<in> U" by blast
    from DoneD [OF assms(1) u] Done_args [OF assms(1) u] ja show ?thesis by auto
  qed
qed

lemma sound_Suc:
  assumes s: "sound pf r n"
  shows "sound pf r (Suc n)"
  unfolding sound_def
proof (intro allI impI)
  fix X p out X1 sz al
  assume rk: "ranked r X"
    and run: "ObjectGetStructSize (Suc n) pf X (Some p) out = Some (X1, sz, al)"
  from run obtain t where t: "deref X p = Some t" by (auto split: option.splits)
  let ?goal = "(\<forall>b. \<not> r b \<le> r p \<longrightarrow> deref X1 b = deref X b) \<and>
       (\<forall>D. Done pf D X \<longrightarrow> Done pf D X1 \<and> (\<forall>b \<in> snd ` D. deref X1 b = deref X b)) \<and>
       (\<exists>D1 k t. Done pf D1 X1 \<and> k \<le> Suc n \<and> (k, p) \<in> D1 \<and>
          deref X1 p = Some t \<and> sz = struct_size t \<and> al = align t)"
  show ?goal
  proof (cases "struct_size t = 0")
    case False
    with run t have e: "X1 = X" "sz = struct_size t" "al = align t" by simp_all
    have "Done pf {(Suc 0, p)} X1 \<and> Suc 0 \<le> Suc n \<and> (Suc 0, p) \<in> {(Suc 0, p)} \<and>
          deref X1 p = Some t \<and> sz = struct_size t \<and> al = align t"
      using settled_cached [OF t False] e t by simp
    then have "\<exists>D1 k t. Done pf D1 X1 \<and> k \<le> Suc n \<and> (k, p) \<in> D1 \<and>
          deref X1 p = Some t \<and> sz = struct_size t \<and> al = align t" by blast
    with e show ?thesis by simp
  next
    case True
    from run t True obtain t1 where
      cl: "compute_layout (ObjectGetStructSize n pf) pf X p = Some X1"
      and t1: "deref X1 p = Some t1" and f: "sz = struct_size t1" "al = align t1"
      by (auto split: option.splits)
    note kp = compute_layout_keeps [OF s rk t cl]
    have rk1: "ranked r X1" using keeps_ranked [OF kp(1) rk] .
    have frame: "\<forall>b. \<not> r b \<le> r p \<longrightarrow> deref X1 b = deref X b"
      using kp(1) unfolding keeps_def by blast
    have pers: "\<forall>D. Done pf D X \<longrightarrow> Done pf D X1 \<and> (\<forall>b \<in> snd ` D. deref X1 b = deref X b)"
    proof (intro allI impI)
      fix D assume d: "Done pf D X"
      show "Done pf D X1 \<and> (\<forall>b \<in> snd ` D. deref X1 b = deref X b)"
      proof (cases "p \<in> snd ` D")
        case False
        with keeps_Done [OF kp(1) d] show ?thesis by blast
      next
        case True
        then obtain h where "(h, p) \<in> D" by force
        from DoneD [OF d this] have st: "settled pf X h p" .
        have "ObjectGetStructSize (max h (Suc n)) pf X (Some p) out
                = Some (X, struct_size t, align t)"
          using settledD [OF st _ t] by simp
        moreover have "ObjectGetStructSize (max h (Suc n)) pf X (Some p) out
                = Some (X1, sz, al)"
          using ObjectGetStructSize_mono [OF run] by simp
        ultimately have "X1 = X" by simp
        with d show ?thesis by simp
      qed
    qed
    from compute_layout_replay [OF s rk t cl] have
      rp: "compute_layout (ObjectGetStructSize n pf) pf X1 p = Some X1" .
    have "\<exists>D1 k. Done pf D1 X1 \<and> k \<le> Suc n \<and> (k, p) \<in> D1"
    proof (cases "struct_size t1 = 0")
      case False
      from settled_cached [OF t1 False] show ?thesis by blast
    next
      case z: True
      let ?U = "{e. \<exists>D. Done pf D X1 \<and> p \<notin> snd ` D \<and> e \<in> D}"
      let ?D = "insert (Suc n, p) ?U"
      have U: "Done pf ?U X1" by (rule Done_Union)
      have st: "settled pf X1 (Suc n) p"
        unfolding settled_def using t1 z rp by simp
      from shape_deref [OF keeps_shape [OF kp(1)] t] t1 have "shape t1 = shape t" by simp
      then have ca: "call_args X1 t1 = call_args X t"
        using call_args_shape [OF keeps_shape [OF kp(1)]] by blast
      have "\<exists>k<Suc n. (k, c) \<in> ?D"
        if ta: "deref X1 p = Some ta" and c: "Some c \<in> call_args X1 ta" for ta c
      proof -
        from ta t1 have "ta = t1" by simp
        with c ca kp(2) have "reached pf p n X1 c" by simp
        then obtain D k where "Done pf D X1" and "p \<notin> snd ` D" and "(k, c) \<in> D"
          and "k \<le> n" unfolding reached_def by blast
        then have "(k, c) \<in> ?D" and "k < Suc n" by auto
        then show ?thesis by blast
      qed
      with U st have "Done pf ?D X1" by (intro Done_insert) blast+
      then show ?thesis by blast
    qed
    with t1 f have "\<exists>D1 k t. Done pf D1 X1 \<and> k \<le> Suc n \<and> (k, p) \<in> D1 \<and>
          deref X1 p = Some t \<and> sz = struct_size t \<and> al = align t" by blast
    with frame pers show ?thesis by blast
  qed
qed

lemma sound_all: "sound pf r n"
proof (induction n)
  case 0
  show ?case unfolding sound_def by simp
next
  case (Suc n)
  then show ?case by (rule sound_Suc)
qed

lemma second_call_changes_nothing:
  assumes "ranked r S" and "ObjectGetStructSize n pf S (Some p) out = Some (S', sz, al)"
  shows "ObjectGetStructSize n pf S' (Some p) out' = Some (S', sz, al)"
proof -
  from sound_all [of pf r n] assms obtain D1 k t where d: "Done pf D1 S'" and k: "k \<le> n"
    and kp: "(k, p) \<in> D1" and t: "deref S' p = Some t" and f: "sz = struct_size t"
    "al = align t"
    unfolding sound_def by blast
  from settledD [OF DoneD [OF d kp] k t, of out'] f show ?thesis by simp
qed

section \<open>The layout is computed once\<close>

lemma ex_hier_ranked: "ranked (\<lambda>a. a) ex_hier"
  unfolding ranked_def deref_def ex_hier_def
  by (auto simp: less_Suc_eq nth_Cons' numeral_3_eq_3 ex_BASE_def ex_DERIVED_def ex_DERIVED2_def
        mk_type_def mk_col_def)

lemma ex_hier_run:
  "ObjectGetStructSize 2 lp64 ex_hier (Some 1) (0, 0) = Some (ex_hier_laid, 0, 0)"
  by code_simp

lemma ex_hier_cached:
  "deref ex_hier_laid 0 = Some (ex_BASE\<lparr>struct_size := 4, align := 4\<rparr>)"
  by (simp add: deref_def ex_hier_laid_def)

text \<open>
  Claim C2. A descriptor whose \<open>struct_size\<close> is not zero is answered from the cache:
  the call returns the two cached fields, leaves every descriptor of the store as it
  is, and needs no fuel for a nested call. And the layout can be asked for twice:
  when a call on a type has returned, in a catalog where no type contains itself, the
  same call on the store it left returns the same size and alignment and changes
  nothing, so the offset table is the same too. This covers the types whose computed
  size is 0, for which the second call runs the whole computation again.
\<close>

theorem layout_is_memoized_and_idempotent:
  "(deref S p = Some ti \<longrightarrow> struct_size ti \<noteq> 0 \<longrightarrow>
      ObjectGetStructSize (Suc fuel) pf S (Some p) out = Some (S, struct_size ti, align ti)) \<and>
   (ranked r S \<longrightarrow> ObjectGetStructSize fuel pf S (Some p) out = Some (S', sz, al) \<longrightarrow>
      ObjectGetStructSize fuel pf S' (Some p) out' = Some (S', sz, al))"
  using ObjectGetStructSize_cached second_call_changes_nothing by blast

theorem layout_is_memoized_and_idempotent_witness:
  "ObjectGetStructSize 1 lp64 ex_hier_laid (Some 0) (0, 0) = Some (ex_hier_laid, 4, 4) \<and>
   ranked (\<lambda>a. a) ex_hier \<and>
   ObjectGetStructSize 2 lp64 ex_hier (Some 1) (0, 0) = Some (ex_hier_laid, 0, 0) \<and>
   ObjectGetStructSize 2 lp64 ex_hier_laid (Some 1) (7, 7) = Some (ex_hier_laid, 0, 0)"
proof -
  have "struct_size (ex_BASE\<lparr>struct_size := 4, align := 4\<rparr>) \<noteq> 0" by simp
  from layout_is_memoized_and_idempotent [THEN conjunct1, rule_format, OF ex_hier_cached this,
      of 0 lp64 "(0, 0)"]
  have a: "ObjectGetStructSize 1 lp64 ex_hier_laid (Some 0) (0, 0) = Some (ex_hier_laid, 4, 4)"
    by simp
  from layout_is_memoized_and_idempotent [THEN conjunct2, rule_format, OF ex_hier_ranked
      ex_hier_run, of "(7, 7)"]
  have b: "ObjectGetStructSize 2 lp64 ex_hier_laid (Some 1) (7, 7) = Some (ex_hier_laid, 0, 0)" .
  from a b ex_hier_ranked ex_hier_run show ?thesis by simp
qed

end
